theory Spec2Isabelle
  imports Main "HOL-Library.Word" "HOL-Library.Multiset"
begin

section \<open>Shared vocabulary\<close>

text \<open>
  Both source files talk to the same fire-and-forget observability sink
  (\<^verbatim>\<open>metchan.Channel\<close>) and to a logger. Neither is read back by the code, so
  each is modelled as the sequence of calls made on it, oldest first.
  Go channels are modelled as FIFO lists: a send appends, a receive takes the head.
  The capacity of a channel only delays the sender and is not part of the model.
\<close>

type_synonym byte = "8 word"
type_synonym int64 = "64 word"
type_synonym uint64 = "64 word"

text \<open>A \<^verbatim>\<open>float64\<close> is carried as its 64 bit pattern: the stages never compute on one.\<close>
type_synonym float64 = "64 word"

text \<open>A \<^verbatim>\<open>time.Time\<close> instant, as a count of clock units.\<close>
type_synonym time = int

text \<open>Calls on the metrics channel: \<^verbatim>\<open>Count(name, n)\<close>, \<^verbatim>\<open>Measure(name, v)\<close>,
  \<^verbatim>\<open>Time(name, start)\<close>. The numeric argument is always a small literal in the
  modelled functions and is kept as a natural number.\<close>
datatype metric = MCount string nat | MMeasure string nat | MTime string

section \<open>The receiver (src/unnamed/part\_000)\<close>

subsection \<open>Data\<close>

text \<open>Modelled from the spec: \<^verbatim>\<open>bucket.Id\<close> is declared in the bucket package, which
  is not among the sources. The fields are those of the spec's BucketIdentity, under the
  names the receiver's debug statements use. Two identities are equal iff all fields are.\<close>
record bucket_id =
  Time :: time
  Resolution :: int
  Auth :: string
  ReadyAt :: time
  Name :: string
  Units :: string
  Source :: string
  Type :: string
  Tags :: string

text \<open>Modelled from the spec: \<^verbatim>\<open>bucket.Bucket\<close> is declared in the bucket package as
  well: an identity and the accumulated numeric state (value list and sum).\<close>
record bucket =
  Id_b :: bucket_id
  Vals :: "float64 list"
  Sum :: float64

type_synonym opts = "(string \<times> string list) list"

record LogRequest =
  Body :: "byte list"
  Opts :: opts

text \<open>The collaborators the receiver calls and the sources do not contain: the parser
  (\<^verbatim>\<open>parser.BuildBuckets\<close>, a finite stream of buckets, here a list), the identity's
  \<^verbatim>\<open>Delay\<close>, the bucket's \<^verbatim>\<open>Merge\<close> (it mutates the receiver bucket in place; here it
  returns the merged bucket) and the store's \<^verbatim>\<open>Put\<close> (it may fail, and it may change the
  store).\<close>
record 'st collaborators =
  BuildBuckets :: "byte list \<Rightarrow> opts \<Rightarrow> bucket list"
  Delay :: "bucket_id \<Rightarrow> time \<Rightarrow> int64"
  Merge :: "bucket \<Rightarrow> bucket \<Rightarrow> bucket"
  Put :: "'st \<Rightarrow> bucket \<Rightarrow> string option \<times> 'st"

datatype receiver_log =
  Debugf_Received "byte list" opts
| Errorf_error string

text \<open>The \<^verbatim>\<open>Receiver\<close> struct. \<^verbatim>\<open>Register\<close> is the locked map; every function below
  that touches it holds the lock from its first to its last statement, so each is one
  atomic step. \<^verbatim>\<open>inFlight\<close> is the counter of the \<^verbatim>\<open>sync.WaitGroup\<close>, which is
  never negative: a \<^verbatim>\<open>Done\<close> at zero panics.\<close>
record 'st Receiver =
  Register :: "bucket_id \<rightharpoonup> bucket"
  Inbox :: "LogRequest list"
  Outbox :: "bucket list"
  FlushInterval :: int
  NumOutlets :: int
  Store :: 'st
  numBuckets :: uint64
  numReqs :: uint64
  deadline :: int64
  Mchan :: "metric list"
  inFlight :: nat
  logger :: "receiver_log list"

datatype panic = NegativeWaitGroupCounter

subsection \<open>Operations\<close>

definition NewReceiver :: "nat \<Rightarrow> int \<Rightarrow> int \<Rightarrow> int64 \<Rightarrow> 'st \<Rightarrow> 'st Receiver" where
  "NewReceiver buffsize flushInt ccu rcvrd s =
     \<lparr> Register = Map.empty, Inbox = [], Outbox = [],
       FlushInterval = flushInt, NumOutlets = ccu, Store = s,
       numBuckets = 0, numReqs = 0, deadline = rcvrd,
       Mchan = [], inFlight = 0, logger = [] \<rparr>"

definition Receive :: "byte list \<Rightarrow> opts \<Rightarrow> 'st Receiver \<Rightarrow> 'st Receiver" where
  "Receive b os r =
     r\<lparr> logger := logger r @ [Debugf_Received b os],
        inFlight := inFlight r + 1,
        Inbox := Inbox r @ [\<lparr> Body = b, Opts = os \<rparr>] \<rparr>"

text \<open>\<^verbatim>\<open>inFlight.Done()\<close>: panics when the counter would become negative.\<close>
definition Done :: "'st Receiver \<Rightarrow> panic + 'st Receiver" where
  "Done r = (if inFlight r = 0 then Inl NegativeWaitGroupCounter
             else Inr (r\<lparr> inFlight := inFlight r - 1 \<rparr>))"

definition addRegister :: "'st collaborators \<Rightarrow> bucket \<Rightarrow> 'st Receiver \<Rightarrow> 'st Receiver" where
  "addRegister E b r =
     (let r1 = r\<lparr> numBuckets := numBuckets r + 1 \<rparr>;
          k = Id_b b
      in case Register r1 k of
           None \<Rightarrow>
             r1\<lparr> Mchan := Mchan r1 @ [MCount ''receiver.add-bucket'' 1],
                 Register := (Register r1)(k \<mapsto> b) \<rparr>
         | Some e \<Rightarrow>
             r1\<lparr> Mchan := Mchan r1 @ [MCount ''receiver.merge-bucket'' 1],
                 Register := (Register r1)(k \<mapsto> Merge E e b) \<rparr>)"

text \<open>The body of the inner loop of \<^verbatim>\<open>accept\<close>, for one parsed bucket. The comparison
  is Go's signed one on \<^verbatim>\<open>int64\<close>. (The local slice \<^verbatim>\<open>buckets\<close> is written and never
  read; it is left out.)\<close>
definition accept_bucket ::
  "'st collaborators \<Rightarrow> time \<Rightarrow> 'st Receiver \<Rightarrow> bucket \<Rightarrow> 'st Receiver" where
  "accept_bucket E storeTime r b =
     (if Delay E (Id_b b) storeTime \<le>s deadline r
      then addRegister E b (r\<lparr> inFlight := inFlight r + 1 \<rparr>)
      else r\<lparr> Mchan := Mchan r @ [MCount ''receiver.drop'' 1] \<rparr>)"

text \<open>The body of the outer loop of \<^verbatim>\<open>accept\<close>, for one request taken from the inbox.\<close>
definition accept_request ::
  "'st collaborators \<Rightarrow> time \<Rightarrow> LogRequest \<Rightarrow> 'st Receiver \<Rightarrow> panic + 'st Receiver" where
  "accept_request E storeTime req r =
     (let r1 = foldl (accept_bucket E storeTime) r (BuildBuckets E (Body req) (Opts req));
          r2 = r1\<lparr> Mchan := Mchan r1 @ [MTime ''receiver.accept''] \<rparr>
      in Done r2)"

text \<open>One iteration of \<^verbatim>\<open>for req := range r.Inbox\<close>; on an empty inbox the worker stays
  suspended and nothing changes.\<close>
definition accept :: "'st collaborators \<Rightarrow> time \<Rightarrow> 'st Receiver \<Rightarrow> panic + 'st Receiver" where
  "accept E storeTime r =
     (case Inbox r of
        [] \<Rightarrow> Inr r
      | req # rest \<Rightarrow> accept_request E storeTime req (r\<lparr> Inbox := rest \<rparr>))"

text \<open>\<^verbatim>\<open>transfer\<close>: the range loop over the register. Go fixes no iteration order for a
  map, so the order \<open>ks\<close> in which the runtime yields the keys is an argument; for a
  real run it enumerates the keys of the map once each.\<close>
fun transfer_loop :: "bucket_id list \<Rightarrow> 'st Receiver \<Rightarrow> 'st Receiver" where
  "transfer_loop [] r = r"
| "transfer_loop (k # ks) r =
     (case Register r k of
        Some m \<Rightarrow> transfer_loop ks (r\<lparr> Register := (Register r)(k := None),
                                       Outbox := Outbox r @ [m] \<rparr>)
      | None \<Rightarrow> transfer_loop ks r)"

definition transfer :: "bucket_id list \<Rightarrow> 'st Receiver \<Rightarrow> 'st Receiver" where
  "transfer ks r = transfer_loop ks r"

text \<open>The body of the loop of the receiver's \<^verbatim>\<open>outlet\<close>, for one bucket taken from the
  outbox.\<close>
definition outlet_bucket ::
  "'st collaborators \<Rightarrow> bucket \<Rightarrow> 'st Receiver \<Rightarrow> panic + 'st Receiver" where
  "outlet_bucket E b r =
     (let (err, st) = Put E (Store r) b;
          r1 = r\<lparr> Store := st \<rparr>;
          r2 = (case err of
                  Some e \<Rightarrow> r1\<lparr> logger := logger r1 @ [Errorf_error e] \<rparr>
                | None \<Rightarrow> r1);
          r3 = r2\<lparr> Mchan := Mchan r2 @ [MTime ''receiver.outlet''] \<rparr>
      in Done r3)"

text \<open>One iteration of \<^verbatim>\<open>for b := range r.Outbox\<close>.\<close>
definition Receiver_outlet :: "'st collaborators \<Rightarrow> 'st Receiver \<Rightarrow> panic + 'st Receiver" where
  "Receiver_outlet E r =
     (case Outbox r of
        [] \<Rightarrow> Inr r
      | b # rest \<Rightarrow> outlet_bucket E b (r\<lparr> Outbox := rest \<rparr>))"

text \<open>A schedule of the receiver's stages: each event is one iteration of one stage.\<close>
datatype receiver_event =
  DoReceive "byte list" opts
| DoAccept time
| DoTransfer "bucket_id list"
| DoOutlet

fun receiver_step ::
  "'st collaborators \<Rightarrow> receiver_event \<Rightarrow> 'st Receiver \<Rightarrow> panic + 'st Receiver" where
  "receiver_step E (DoReceive b os) r = Inr (Receive b os r)"
| "receiver_step E (DoAccept t) r = accept E t r"
| "receiver_step E (DoTransfer ks) r = Inr (transfer ks r)"
| "receiver_step E DoOutlet r = Receiver_outlet E r"

fun receiver_run ::
  "'st collaborators \<Rightarrow> receiver_event list \<Rightarrow> 'st Receiver \<Rightarrow> panic + 'st Receiver" where
  "receiver_run E [] r = Inr r"
| "receiver_run E (e # es) r =
     (case receiver_step E e r of
        Inl p \<Rightarrow> Inl p
      | Inr r' \<Rightarrow> receiver_run E es r')"

subsection \<open>Notions used to state the receiver's properties\<close>

text \<open>Every entry of the register sits under the identity of its own bucket.\<close>
definition wellkeyed :: "(bucket_id \<rightharpoonup> bucket) \<Rightarrow> bool" where
  "wellkeyed m = (\<forall>k b. m k = Some b \<longrightarrow> Id_b b = k)"

text \<open>How often \<^verbatim>\<open>addRegister\<close> has taken its merge branch so far: it reports each one
  on the metrics channel.\<close>
definition merges :: "'st Receiver \<Rightarrow> nat" where
  "merges r = count_list (Mchan r) (MCount ''receiver.merge-bucket'' 1)"

text \<open>The account of the in-flight counter: one for each request waiting in the inbox, one
  for each entry of the register, one for each bucket waiting in the outbox, and one for
  each merge there has been.\<close>
definition balanced :: "'st Receiver \<Rightarrow> bool" where
  "balanced r =
     (finite (dom (Register r)) \<and>
      inFlight r = length (Inbox r) + card (dom (Register r)) + length (Outbox r) + merges r)"

text \<open>The states of a receiver between two statements of its goroutines, in any
  interleaving of them. Each rule is one statement of \<^verbatim>\<open>Receive\<close>, \<^verbatim>\<open>accept\<close>,
  \<^verbatim>\<open>transfer\<close> or \<^verbatim>\<open>outlet\<close>, or one section under the register's lock: a worker of
  \<^verbatim>\<open>accept\<close> takes a request from the inbox, then for each bucket either counts it in
  flight (\<open>reach_Add\<close>) and calls \<^verbatim>\<open>addRegister\<close>, or counts a drop, and ends with the
  timing and \<^verbatim>\<open>Done\<close>. The buckets a worker still has to handle are local to it and not
  part of the state, so any bucket may come next. The state after \<open>reach_Add\<close> is the one
  \<^verbatim>\<open>addRegister\<close> is called on.\<close>
inductive receiver_reach :: "'st collaborators \<Rightarrow> 'st Receiver \<Rightarrow> bool"
  for E :: "'st collaborators" where
  reach_New: "receiver_reach E (NewReceiver buffsize flushInt ccu rcvrd s)"
| reach_Receive: "receiver_reach E r \<Longrightarrow> receiver_reach E (Receive b os r)"
| reach_take: "receiver_reach E r \<Longrightarrow> Inbox r = req # rest \<Longrightarrow>
               receiver_reach E (r\<lparr> Inbox := rest \<rparr>)"
| reach_Add: "receiver_reach E r \<Longrightarrow> receiver_reach E (r\<lparr> inFlight := inFlight r + 1 \<rparr>)"
| reach_addRegister: "receiver_reach E r \<Longrightarrow> receiver_reach E (addRegister E b r)"
| reach_drop: "receiver_reach E r \<Longrightarrow>
               receiver_reach E (r\<lparr> Mchan := Mchan r @ [MCount ''receiver.drop'' 1] \<rparr>)"
| reach_accept_end: "receiver_reach E r \<Longrightarrow>
               Done (r\<lparr> Mchan := Mchan r @ [MTime ''receiver.accept''] \<rparr>) = Inr r' \<Longrightarrow>
               receiver_reach E r'"
| reach_transfer: "receiver_reach E r \<Longrightarrow> receiver_reach E (transfer ks r)"
| reach_outlet: "receiver_reach E r \<Longrightarrow> Receiver_outlet E r = Inr r' \<Longrightarrow>
               receiver_reach E r'"

subsection \<open>A concrete receiver\<close>

definition ex_id :: bucket_id where
  "ex_id = \<lparr> Time = 60, Resolution = 60, Auth = ''key'', ReadyAt = 120, Name = ''hits'',
            Units = ''reqs'', Source = ''web.1'', Type = ''measure'', Tags = ''env:prod'' \<rparr>"

definition ex_bucket :: "float64 \<Rightarrow> bucket" where
  "ex_bucket v = \<lparr> Id_b = ex_id, Vals = [v], Sum = v \<rparr>"

text \<open>Stand-ins for the collaborators: a parser that yields one bucket of identity
  \<open>ex_id\<close> for each byte of the body, a delay that is the distance from the window start,
  a merge that appends the value lists, and a store that keeps the buckets put.\<close>
definition ex_collaborators :: "bucket list collaborators" where
  "ex_collaborators =
     \<lparr> BuildBuckets = (\<lambda>body os. map (\<lambda>x. ex_bucket (ucast x)) body),
       Delay = (\<lambda>i t. word_of_int (t - Time i)),
       Merge = (\<lambda>a b. a\<lparr> Vals := Vals a @ Vals b \<rparr>),
       Put = (\<lambda>st b. (None, st @ [b])) \<rparr>"

text \<open>The same with a store whose \<^verbatim>\<open>Put\<close> fails.\<close>
definition ex_failing_store :: "bucket list collaborators" where
  "ex_failing_store = ex_collaborators\<lparr> Put := (\<lambda>st b. (Some ''store down'', st)) \<rparr>"

definition ex_receiver :: "bucket list Receiver" where
  "ex_receiver = NewReceiver 8 1 1 5 []"

text \<open>A second identity, and the receiver after it has admitted one bucket of each.\<close>
definition ex_id2 :: bucket_id where
  "ex_id2 = ex_id\<lparr> Name := ''misses'' \<rparr>"

definition ex_loaded :: "bucket list Receiver" where
  "ex_loaded =
     foldl (accept_bucket ex_collaborators 65) ex_receiver
       [ex_bucket 1, \<lparr> Id_b = ex_id2, Vals = [2], Sum = 2 \<rparr>]"

section \<open>The DataDog outlet (src/l2met/outlet/datadog\_outlet.go)\<close>

subsection \<open>Data\<close>

text \<open>Modelled from the spec: \<^verbatim>\<open>metrics.DataDog\<close> is declared in the metrics package,
  which is not among the sources. The fields are the ones \<^verbatim>\<open>outlet\<close> prints in
  verbose mode, which are those of the spec's ProviderRecord. The code handles pointers to
  such records; they are never nil on the conversions channel and are modelled as
  values.\<close>
record DataDog =
  Metric :: string
  Host :: string
  Tags :: "string list"
  Type :: string
  Auth :: string
  Points :: "(time \<times> float64) list"

text \<open>A Go slice, as far as \<^verbatim>\<open>len\<close>, \<^verbatim>\<open>cap\<close> and \<^verbatim>\<open>append\<close> see it: its elements
  and the capacity of its backing array.\<close>
record 'a slice =
  elems :: "'a list"
  cap :: nat

definition len :: "'a slice \<Rightarrow> nat" where
  "len s = length (elems s)"

text \<open>\<^verbatim>\<open>append(s, x)\<close>: in place while the backing array has room; otherwise the runtime
  allocates a new array, whose capacity (from the old one) is the runtime's choice
  \<open>grow\<close>.\<close>
definition append_slice :: "(nat \<Rightarrow> nat) \<Rightarrow> 'a slice \<Rightarrow> 'a \<Rightarrow> 'a slice" where
  "append_slice grow s x =
     (if len s < cap s then \<lparr> elems = elems s @ [x], cap = cap s \<rparr>
      else \<lparr> elems = elems s @ [x], cap = grow (cap s) \<rparr>)"

text \<open>What the outlet calls and the sources do not contain: \<^verbatim>\<open>json.Marshal\<close> of the
  request envelope, the HTTP round trip of \<^verbatim>\<open>post\<close> (\<^verbatim>\<open>DataDogCreateRequest\<close>,
  \<^verbatim>\<open>conn.Do\<close> and \<^verbatim>\<open>DataDogHandleResponse\<close> together: an error or success, and a
  changed network), and the runtime's slice growth.\<close>
record 'net outlet_collaborators =
  Marshal :: "DataDog list \<Rightarrow> string + byte list"
  RoundTrip :: "'net \<Rightarrow> string \<Rightarrow> byte list \<Rightarrow> string option \<times> 'net"
  growslice :: "nat \<Rightarrow> nat"

datatype outlet_log =
  Printf_payload DataDog
| Printf_empty_metrics_error
| Printf_verbose nat DataDog
| Printf_json_error string string
| Printf_post_error string string int
| Printf_body "byte list"

text \<open>The \<^verbatim>\<open>DataDogOutlet\<close> struct, without the reader and the two channels that only
  \<^verbatim>\<open>Start\<close> and \<^verbatim>\<open>convert\<close> use. \<^verbatim>\<open>conn\<close> stands for the HTTP client together with
  the network behind it; \<^verbatim>\<open>stdlog\<close> is the output of the standard logger.\<close>
record 'net DataDogOutlet =
  outbox :: "DataDog list list"
  numOutlets :: int
  conn :: 'net
  numRetries :: int
  Mchan :: "metric list"
  verbose :: bool
  quiet :: bool
  stdlog :: "outlet_log list"

text \<open>Modelled from the spec: \<^verbatim>\<open>shuttle.Config\<close> is declared outside the sources; these
  are the fields \<^verbatim>\<open>NewDataDogOutlet\<close> reads.\<close>
record Config =
  L2met_OutletTtl :: int
  L2met_BufferSize :: int
  L2met_Concurrency :: int
  L2met_OutletRetries :: int
  Verbose :: bool
  Quiet :: bool

text \<open>\<^verbatim>\<open>NewDataDogOutlet\<close>; the network the new client will talk to is an argument.\<close>
definition NewDataDogOutlet :: "Config \<Rightarrow> 'net \<Rightarrow> 'net DataDogOutlet" where
  "NewDataDogOutlet cfg net =
     \<lparr> outbox = [], numOutlets = L2met_Concurrency cfg, conn = net,
       numRetries = L2met_OutletRetries cfg, Mchan = [],
       verbose = Verbose cfg, quiet = Quiet cfg, stdlog = [] \<rparr>"

text \<open>The errors \<^verbatim>\<open>postWithRetry\<close> returns: the one \<^verbatim>\<open>post\<close> gave, or the one it
  makes itself after its loop (\<^verbatim>\<open>errors.New("Unable to post.")\<close>), which is a value of
  its own.\<close>
datatype post_error = PostFailed string | UnableToPost

subsection \<open>The batch stage\<close>

type_synonym groups = "string \<rightharpoonup> DataDog slice"

text \<open>The \<^verbatim>\<open>ticker\<close> case of \<^verbatim>\<open>groupByUser\<close>: the range loop over the local map
  \<^verbatim>\<open>m\<close>, in the order \<open>ks\<close> the runtime yields its keys.\<close>
fun groupByUser_tick ::
  "string list \<Rightarrow> groups \<times> 'net DataDogOutlet \<Rightarrow> groups \<times> 'net DataDogOutlet" where
  "groupByUser_tick [] (m, l) = (m, l)"
| "groupByUser_tick (k # ks) (m, l) =
     (case m k of
        Some v \<Rightarrow>
          groupByUser_tick ks
            (m(k := None),
             if len v > 0 then l\<lparr> outbox := outbox l @ [elems v] \<rparr> else l)
      | None \<Rightarrow> groupByUser_tick ks (m, l))"

text \<open>The \<^verbatim>\<open>conversions\<close> case, for the record received. \<^verbatim>\<open>make(.., 1, 300)\<close> and the
  store into index 0 are one step. A lookup of a missing key gives Go's nil slice, of
  length and capacity 0.\<close>
definition groupByUser_payload ::
  "'net outlet_collaborators \<Rightarrow> DataDog \<Rightarrow> groups \<times> 'net DataDogOutlet
     \<Rightarrow> groups \<times> 'net DataDogOutlet" where
  "groupByUser_payload E payload = (\<lambda>(m, l).
     (let l1 = l\<lparr> stdlog := stdlog l @ [Printf_payload payload] \<rparr>;
          usr = Auth payload;
          m1 = (case m usr of
                  None \<Rightarrow> m(usr \<mapsto> \<lparr> elems = [payload], cap = 300 \<rparr>)
                | Some g \<Rightarrow> m(usr \<mapsto> append_slice (growslice E) g payload));
          g1 = (case m1 usr of None \<Rightarrow> \<lparr> elems = [], cap = 0 \<rparr> | Some g \<Rightarrow> g)
      in if len g1 = cap g1
         then (m1(usr := None), l1\<lparr> outbox := outbox l1 @ [elems g1] \<rparr>)
         else (m1, l1)))"

text \<open>What the \<^verbatim>\<open>select\<close> of \<^verbatim>\<open>groupByUser\<close> can receive: a tick (with the key order of
  the range loop it starts) or a record from the conversions channel.\<close>
datatype batch_event = Tick "string list" | Payload DataDog

fun groupByUser_step ::
  "'net outlet_collaborators \<Rightarrow> batch_event \<Rightarrow> groups \<times> 'net DataDogOutlet
     \<Rightarrow> groups \<times> 'net DataDogOutlet" where
  "groupByUser_step E (Tick ks) ml = groupByUser_tick ks ml"
| "groupByUser_step E (Payload p) ml = groupByUser_payload E p ml"

text \<open>\<^verbatim>\<open>groupByUser\<close> never returns: its \<^verbatim>\<open>for\<close> loop serves one event after the
  other. \<open>groupByUser_loop\<close> is the state of the loop after the events \<open>evs\<close>, and
  \<open>groupByUser\<close> starts it from the empty map the function makes.\<close>
fun groupByUser_loop ::
  "'net outlet_collaborators \<Rightarrow> batch_event list \<Rightarrow> groups \<times> 'net DataDogOutlet
     \<Rightarrow> groups \<times> 'net DataDogOutlet" where
  "groupByUser_loop E [] ml = ml"
| "groupByUser_loop E (e # es) ml = groupByUser_loop E es (groupByUser_step E e ml)"

definition groupByUser ::
  "'net outlet_collaborators \<Rightarrow> batch_event list \<Rightarrow> 'net DataDogOutlet
     \<Rightarrow> groups \<times> 'net DataDogOutlet" where
  "groupByUser E evs l = groupByUser_loop E evs (Map.empty, l)"

subsection \<open>The deliver stage\<close>

definition post ::
  "'net outlet_collaborators \<Rightarrow> string \<Rightarrow> byte list \<Rightarrow> 'net DataDogOutlet
     \<Rightarrow> string option \<times> 'net DataDogOutlet" where
  "post E api_key body l =
     (let l1 = (if verbose l then l\<lparr> stdlog := stdlog l @ [Printf_body body] \<rparr> else l);
          (err, net) = RoundTrip E (conn l1) api_key body
      in (err, l1\<lparr> conn := net, Mchan := Mchan l1 @ [MTime ''outlet.post''] \<rparr>))"

text \<open>The loop of \<^verbatim>\<open>postWithRetry\<close>, from the value \<open>i\<close> of its counter. Go's \<^verbatim>\<open>int\<close>
  is 64 bits wide; the counter is never incremented at \<open>i = numRetries\<close>, where the
  body returns, so it cannot overflow and is an integer here.\<close>
function postWithRetry_loop ::
  "'net outlet_collaborators \<Rightarrow> string \<Rightarrow> byte list \<Rightarrow> int \<Rightarrow> 'net DataDogOutlet
     \<Rightarrow> post_error option \<times> 'net DataDogOutlet" where
  "postWithRetry_loop E api_key body i l =
     (if i \<le> numRetries l then
        (let r = post E api_key body l; l1 = snd r in
         case fst r of
           Some err \<Rightarrow>
             (let l2 = (if \<not> quiet l1
                        then l1\<lparr> stdlog := stdlog l1 @ [Printf_post_error api_key err i] \<rparr>
                        else l1)
              in if i = numRetries l2 then (Some (PostFailed err), l2)
                 else postWithRetry_loop E api_key body (i + 1) l2)
         | None \<Rightarrow> (None, l1))
      else (Some UnableToPost, l))"
  by pat_completeness auto
termination
  by (relation "measure (\<lambda>(E, api_key, body, i, l). nat (numRetries l + 1 - i))")
     (auto simp: post_def Let_def split: prod.splits)

declare postWithRetry_loop.simps [simp del]

definition postWithRetry ::
  "'net outlet_collaborators \<Rightarrow> string \<Rightarrow> byte list \<Rightarrow> 'net DataDogOutlet
     \<Rightarrow> post_error option \<times> 'net DataDogOutlet" where
  "postWithRetry E api_key body l = postWithRetry_loop E api_key body 0 l"

text \<open>The body of the loop of the outlet's \<^verbatim>\<open>outlet\<close>, for one batch taken from its
  outbox.\<close>
definition outlet_batch ::
  "'net outlet_collaborators \<Rightarrow> DataDog list \<Rightarrow> 'net DataDogOutlet \<Rightarrow> 'net DataDogOutlet" where
  "outlet_batch E payloads l =
     (if length payloads < 1
      then (if \<not> quiet l then l\<lparr> stdlog := stdlog l @ [Printf_empty_metrics_error] \<rparr> else l)
      else
        (let api_key = Auth (payloads ! 0);
             l1 = (if verbose l
                   then l\<lparr> stdlog := stdlog l @
                          map (\<lambda>m. Printf_verbose m (payloads ! m)) [0..<length payloads] \<rparr>
                   else l)
         in case Marshal E payloads of
              Inl err \<Rightarrow>
                (if \<not> quiet l1
                 then l1\<lparr> stdlog := stdlog l1 @ [Printf_json_error err api_key] \<rparr>
                 else l1)
            | Inr j \<Rightarrow>
                (let r = postWithRetry E api_key j l1 in
                 case fst r of
                   Some err \<Rightarrow> (snd r)\<lparr> Mchan := Mchan (snd r) @ [MMeasure ''outlet.drop'' 1] \<rparr>
                 | None \<Rightarrow> snd r)))"

text \<open>One iteration of \<^verbatim>\<open>for payloads := range l.outbox\<close>; on an empty channel the
  worker stays suspended.\<close>
definition DataDogOutlet_outlet ::
  "'net outlet_collaborators \<Rightarrow> 'net DataDogOutlet \<Rightarrow> 'net DataDogOutlet" where
  "DataDogOutlet_outlet E l =
     (case outbox l of
        [] \<Rightarrow> l
      | payloads # rest \<Rightarrow> outlet_batch E payloads (l\<lparr> outbox := rest \<rparr>))"

text \<open>A worker's state after \<open>n\<close> iterations of that loop.\<close>
fun outlet_iterations ::
  "'net outlet_collaborators \<Rightarrow> nat \<Rightarrow> 'net DataDogOutlet \<Rightarrow> 'net DataDogOutlet" where
  "outlet_iterations E 0 l = l"
| "outlet_iterations E (Suc n) l = outlet_iterations E n (DataDogOutlet_outlet E l)"

subsection \<open>Notions used to state the outlet's properties\<close>

text \<open>The number of calls of \<^verbatim>\<open>post\<close> so far (each one reports its duration when it
  returns) and the value of the drop counter.\<close>
definition post_calls :: "'net DataDogOutlet \<Rightarrow> nat" where
  "post_calls l = count_list (Mchan l) (MTime ''outlet.post'')"

definition drops :: "'net DataDogOutlet \<Rightarrow> nat" where
  "drops l = count_list (Mchan l) (MMeasure ''outlet.drop'' 1)"

text \<open>The network after \<open>n\<close> round trips for the same request, and the outcome of the
  next one: \<open>outcome E k b n net\<close> is what attempt \<open>n + 1\<close> of a delivery that starts on
  \<open>net\<close> gets.\<close>
fun net_after ::
  "'net outlet_collaborators \<Rightarrow> string \<Rightarrow> byte list \<Rightarrow> nat \<Rightarrow> 'net \<Rightarrow> 'net" where
  "net_after E api_key body 0 net = net"
| "net_after E api_key body (Suc n) net =
     net_after E api_key body n (snd (RoundTrip E net api_key body))"

definition outcome ::
  "'net outlet_collaborators \<Rightarrow> string \<Rightarrow> byte list \<Rightarrow> nat \<Rightarrow> 'net \<Rightarrow> string option" where
  "outcome E api_key body n net =
     fst (RoundTrip E (net_after E api_key body n net) api_key body)"

text \<open>The groups \<^verbatim>\<open>groupByUser\<close> holds between two events: none is empty, none is full,
  each has the capacity it was made with and holds records of its own key only.\<close>
definition group_inv :: "groups \<Rightarrow> bool" where
  "group_inv m =
     (\<forall>k g. m k = Some g \<longrightarrow>
        0 < len g \<and> len g < cap g \<and> cap g = 300 \<and> (\<forall>p\<in>set (elems g). Auth p = k))"

text \<open>A batch as the deliver stage expects one, and the step from an outlet to a later one
  that has only added such batches to the outbox.\<close>
definition good_batch :: "DataDog list \<Rightarrow> bool" where
  "good_batch b = (b \<noteq> [] \<and> length b \<le> 300 \<and> (\<forall>p\<in>set b. Auth p = Auth (b ! 0)))"

definition emits :: "'net DataDogOutlet \<Rightarrow> 'net DataDogOutlet \<Rightarrow> bool" where
  "emits l l' = (\<exists>bs. outbox l' = outbox l @ bs \<and> (\<forall>b\<in>set bs. good_batch b))"

subsection \<open>A concrete outlet\<close>

definition ex_record :: "string \<Rightarrow> DataDog" where
  "ex_record key = \<lparr> Metric = ''hits.sum'', Host = ''web.1'', Tags = [''env:prod''],
                     Type = ''gauge'', Auth = key, Points = [(60, 7)] \<rparr>"

text \<open>Stand-ins for the collaborators, on a network that is the count of the round trips
  made: the first two fail, the later ones succeed.\<close>
definition ex_outlet_collaborators :: "nat outlet_collaborators" where
  "ex_outlet_collaborators =
     \<lparr> Marshal = (\<lambda>ps. Inr (map (\<lambda>p. of_nat (length (Metric p))) ps)),
       RoundTrip = (\<lambda>net api_key body. (if net < 2 then Some ''503'' else None, Suc net)),
       growslice = (\<lambda>c. 2 * c) \<rparr>"

text \<open>The same on a network where every round trip fails.\<close>
definition ex_dead_network :: "nat outlet_collaborators" where
  "ex_dead_network =
     ex_outlet_collaborators\<lparr> RoundTrip := (\<lambda>net api_key body. (Some ''503'', Suc net)) \<rparr>"

definition ex_config :: Config where
  "ex_config = \<lparr> L2met_OutletTtl = 2, L2met_BufferSize = 8, L2met_Concurrency = 1,
                 L2met_OutletRetries = 2, Verbose = False, Quiet = False \<rparr>"

definition ex_outlet :: "nat DataDogOutlet" where
  "ex_outlet = NewDataDogOutlet ex_config 0"

section \<open>Properties of the receiver\<close>

lemmas ex_defs = ex_id_def ex_id2_def ex_receiver_def ex_loaded_def ex_collaborators_def
  ex_failing_store_def ex_bucket_def
  NewReceiver_def Receive_def accept_def accept_request_def accept_bucket_def addRegister_def
  Done_def transfer_def Receiver_outlet_def outlet_bucket_def Let_def word_sle_eq

subsection \<open>The transfer tick\<close>

lemma transfer_loop_eq:
  "distinct ks \<Longrightarrow> set ks \<subseteq> dom (Register r) \<Longrightarrow>
   transfer_loop ks r =
     r\<lparr> Register := (\<lambda>k. if k \<in> set ks then None else Register r k),
        Outbox := Outbox r @ map (\<lambda>k. the (Register r k)) ks \<rparr>"
proof (induction ks arbitrary: r)
  case Nil
  then show ?case by simp
next
  case (Cons k ks)
  from Cons.prems obtain m where m: "Register r k = Some m" by auto
  let ?r = "r\<lparr> Register := (Register r)(k := None), Outbox := Outbox r @ [m] \<rparr>"
  have d: "distinct ks" and nk: "k \<notin> set ks" using Cons.prems by auto
  have sub: "set ks \<subseteq> dom (Register ?r)" using Cons.prems nk by auto
  have mp: "map (\<lambda>j. the (if j = k then None else Register r j)) ks
            = map (\<lambda>j. the (Register r j)) ks"
    using nk by (auto intro: map_cong)
  have rg: "(\<lambda>j. if j \<in> set ks then None else Register ?r j)
            = (\<lambda>j. if j = k \<or> j \<in> set ks then None else Register r j)"
    by (auto simp: fun_eq_iff)
  have "transfer_loop (k # ks) r = transfer_loop ks ?r" using m by simp
  also have "\<dots> = ?r\<lparr> Register := (\<lambda>j. if j \<in> set ks then None else Register ?r j),
        Outbox := Outbox ?r @ map (\<lambda>j. the (Register ?r j)) ks \<rparr>"
    by (rule Cons.IH [OF d sub])
  also have "\<dots> = r\<lparr> Register := (\<lambda>j. if j \<in> set (k # ks) then None else Register r j),
        Outbox := Outbox r @ map (\<lambda>j. the (Register r j)) (k # ks) \<rparr>"
    using m by (simp add: mp rg)
  finally show ?case .
qed

text \<open>
  Claim C1. One transfer tick, whatever the order \<open>ks\<close> in which the range loop meets the
  keys of the register: afterwards the register is empty, nothing else of the receiver has
  changed, and the outbox has grown by the buckets of the register, each entry once (as
  multisets, the buckets sent are the buckets the register held).
\<close>
theorem transfer_drains_register:
  assumes "distinct ks" and "set ks = dom (Register r)"
  shows "transfer ks r =
           r\<lparr> Register := Map.empty,
              Outbox := Outbox r @ map (\<lambda>k. the (Register r k)) ks \<rparr>
       \<and> mset (map (\<lambda>k. the (Register r k)) ks) =
           image_mset (\<lambda>k. the (Register r k)) (mset_set (dom (Register r)))"
proof -
  have "(\<lambda>k. if k \<in> set ks then None else Register r k) = Map.empty"
    using assms(2) by (auto simp: fun_eq_iff)
  then have a: "transfer ks r =
           r\<lparr> Register := Map.empty,
              Outbox := Outbox r @ map (\<lambda>k. the (Register r k)) ks \<rparr>"
    using transfer_loop_eq [of ks r] assms by (simp add: transfer_def)
  have "mset_set (dom (Register r)) = mset ks"
    using assms by (metis mset_set_set)
  then show ?thesis using a by simp
qed

theorem transfer_drains_register_witness:
  "distinct [ex_id2, ex_id] \<and> set [ex_id2, ex_id] = dom (Register ex_loaded)
   \<and> Register (transfer [ex_id2, ex_id] ex_loaded) = Map.empty
   \<and> Outbox (transfer [ex_id2, ex_id] ex_loaded)
       = [\<lparr> Id_b = ex_id2, Vals = [2], Sum = 2 \<rparr>, ex_bucket 1]"
proof -
  have d: "distinct [ex_id2, ex_id]" by (simp add: ex_id_def ex_id2_def)
  have s: "set [ex_id2, ex_id] = dom (Register ex_loaded)"
    by (auto simp: ex_defs)
  have o: "Outbox ex_loaded = []"
    and r: "Register ex_loaded ex_id = Some (ex_bucket 1)"
           "Register ex_loaded ex_id2 = Some \<lparr> Id_b = ex_id2, Vals = [2], Sum = 2 \<rparr>"
    by (simp_all add: ex_defs)
  from transfer_drains_register [OF d s] show ?thesis using d s o r by simp
qed

subsection \<open>The deadline\<close>

lemma addRegister_explicit:
  "addRegister E b r =
     r\<lparr> numBuckets := numBuckets r + 1,
        Receiver.Mchan := Receiver.Mchan r
          @ [MCount (if Register r (Id_b b) = None then ''receiver.add-bucket''
                     else ''receiver.merge-bucket'') 1],
        Register := (Register r)(Id_b b \<mapsto>
          (case Register r (Id_b b) of None \<Rightarrow> b | Some e \<Rightarrow> Merge E e b)) \<rparr>"
  by (simp add: addRegister_def Let_def split: option.splits)

lemma accept_bucket_keeps:
  "deadline (accept_bucket E t r b) = deadline r"
  "inFlight r \<le> inFlight (accept_bucket E t r b)"
  "dom (Register r) \<subseteq> dom (Register (accept_bucket E t r b))"
  by (auto simp: accept_bucket_def addRegister_explicit)

lemma foldl_accept_bucket_keeps:
  "deadline (foldl (accept_bucket E t) r bs) = deadline r
   \<and> inFlight r \<le> inFlight (foldl (accept_bucket E t) r bs)
   \<and> dom (Register r) \<subseteq> dom (Register (foldl (accept_bucket E t) r bs))"
proof (induction bs arbitrary: r)
  case Nil
  show ?case by simp
next
  case (Cons b bs)
  note k = accept_bucket_keeps [where E = E and t = t and r = r and b = b]
  note i = Cons.IH [of "accept_bucket E t r b"]
  have "inFlight r \<le> inFlight (foldl (accept_bucket E t) (accept_bucket E t r b) bs)"
    using k(2) i by (metis order_trans)
  moreover have "dom (Register r)
      \<subseteq> dom (Register (foldl (accept_bucket E t) (accept_bucket E t r b) bs))"
    using k(3) i by (metis subset_trans)
  ultimately show ?case using k(1) i by simp
qed

text \<open>
  Claim C2. For a parsed bucket \<open>b\<close> met in state \<open>r\<close>, the loop body of \<open>accept\<close> has
  two outcomes, which never coincide. Exactly when the delay of \<open>b\<close> is at most the
  deadline (as signed 64-bit numbers) the result is \<open>admitted\<close>: the bucket is counted in
  flight and in \<open>numBuckets\<close>, and the register holds under the identity of \<open>b\<close> the
  bucket itself if the identity was absent, and otherwise the old entry merged with \<open>b\<close>.
  Exactly when the delay is above the deadline the result is \<open>dropped\<close>: one count of
  \<open>receiver.drop\<close> and nothing else, the register as it was. A delay equal to the deadline
  is admitted, a delay one above it is dropped.
  For \<open>accept\<close> itself, serving a request whose parsed buckets are \<open>pre\<close>, \<open>b\<close>, \<open>post\<close>:
  it meets \<open>b\<close> in the state \<open>r1\<close> that the buckets before left, with the deadline
  unchanged, and it returns a receiver and no error; when \<open>b\<close> is within the deadline the
  register holds its entry as above right after it and still has an entry for its identity
  when \<open>accept\<close> is done with the request; when it is not, \<open>b\<close> is dropped as above.
\<close>
theorem accept_deadline_boundary:
  fixes E :: "'st collaborators" and r :: "'st Receiver" and b :: bucket and t :: time
    and req :: LogRequest and rest :: "LogRequest list" and pre post :: "bucket list"
  defines "age \<equiv> sint (Delay E (Id_b b) t)"
    and "admitted \<equiv>
           r\<lparr> inFlight := inFlight r + 1,
              numBuckets := numBuckets r + 1,
              Receiver.Mchan := Receiver.Mchan r
                @ [MCount (if Register r (Id_b b) = None then ''receiver.add-bucket''
                           else ''receiver.merge-bucket'') 1],
              Register := (Register r)(Id_b b \<mapsto>
                (case Register r (Id_b b) of None \<Rightarrow> b | Some e \<Rightarrow> Merge E e b)) \<rparr>"
    and "dropped \<equiv> r\<lparr> Receiver.Mchan := Receiver.Mchan r @ [MCount ''receiver.drop'' 1] \<rparr>"
    and "r1 \<equiv> foldl (accept_bucket E t) (r\<lparr> Inbox := rest \<rparr>) pre"
    and "r2 \<equiv> foldl (accept_bucket E t)
                 (accept_bucket E t (foldl (accept_bucket E t) (r\<lparr> Inbox := rest \<rparr>) pre) b) post"
  shows "(accept_bucket E t r b = admitted) = (age \<le> sint (deadline r))
       \<and> (accept_bucket E t r b = dropped) = (sint (deadline r) < age)
       \<and> (Delay E (Id_b b) t = deadline r \<longrightarrow> accept_bucket E t r b = admitted)
       \<and> (age = sint (deadline r) + 1 \<longrightarrow> accept_bucket E t r b = dropped)
       \<and> (Inbox r = req # rest \<and> BuildBuckets E (Body req) (Opts req) = pre @ b # post
            \<and> 0 < inFlight r \<longrightarrow>
            accept E t r =
              Inr (r2\<lparr> Receiver.Mchan := Receiver.Mchan r2 @ [MTime ''receiver.accept''],
                       inFlight := inFlight r2 - 1 \<rparr>)
            \<and> deadline r1 = deadline r
            \<and> (age \<le> sint (deadline r) \<longrightarrow>
                 Register (accept_bucket E t r1 b) (Id_b b) =
                   Some (case Register r1 (Id_b b) of None \<Rightarrow> b | Some e \<Rightarrow> Merge E e b)
                 \<and> Id_b b \<in> dom (Register r2))
            \<and> (sint (deadline r) < age \<longrightarrow>
                 accept_bucket E t r1 b =
                   r1\<lparr> Receiver.Mchan := Receiver.Mchan r1 @ [MCount ''receiver.drop'' 1] \<rparr>))"
proof -
  have ne: "admitted \<noteq> dropped"
  proof
    assume "admitted = dropped"
    then have "numBuckets admitted = numBuckets dropped" by simp
    then show False by (simp add: admitted_def dropped_def)
  qed
  have ad: "accept_bucket E t r b = admitted" if "age \<le> sint (deadline r)"
    using that by (simp add: accept_bucket_def addRegister_explicit word_sle_eq age_def admitted_def)
  have dr: "accept_bucket E t r b = dropped" if "sint (deadline r) < age"
    using that by (simp add: accept_bucket_def word_sle_eq age_def dropped_def)
  have c1: "(accept_bucket E t r b = admitted) = (age \<le> sint (deadline r))"
    using ad dr ne by (cases "age \<le> sint (deadline r)") auto
  have c2: "(accept_bucket E t r b = dropped) = (sint (deadline r) < age)"
    using ad dr ne by (cases "age \<le> sint (deadline r)") auto
  have c3: "accept_bucket E t r b = admitted" if "Delay E (Id_b b) t = deadline r"
    using that ad by (simp add: age_def)
  have c4: "accept_bucket E t r b = dropped" if "age = sint (deadline r) + 1"
    using that dr by simp
  have c5: "accept E t r =
              Inr (r2\<lparr> Receiver.Mchan := Receiver.Mchan r2 @ [MTime ''receiver.accept''],
                       inFlight := inFlight r2 - 1 \<rparr>)
            \<and> deadline r1 = deadline r
            \<and> (age \<le> sint (deadline r) \<longrightarrow>
                 Register (accept_bucket E t r1 b) (Id_b b) =
                   Some (case Register r1 (Id_b b) of None \<Rightarrow> b | Some e \<Rightarrow> Merge E e b)
                 \<and> Id_b b \<in> dom (Register r2))
            \<and> (sint (deadline r) < age \<longrightarrow>
                 accept_bucket E t r1 b =
                   r1\<lparr> Receiver.Mchan := Receiver.Mchan r1 @ [MCount ''receiver.drop'' 1] \<rparr>)"
    if h: "Inbox r = req # rest" "BuildBuckets E (Body req) (Opts req) = pre @ b # post"
          "0 < inFlight r"
  proof -
    have r2': "r2 = foldl (accept_bucket E t) (accept_bucket E t r1 b) post"
      by (simp add: r1_def r2_def)
    have whole: "foldl (accept_bucket E t) (r\<lparr> Inbox := rest \<rparr>)
                   (BuildBuckets E (Body req) (Opts req)) = r2"
      by (simp add: h(2) r2_def)
    note k1 = foldl_accept_bucket_keeps
                [where E = E and t = t and r = "r\<lparr> Inbox := rest \<rparr>" and bs = pre]
    note kb = accept_bucket_keeps [where E = E and t = t and r = r1 and b = b]
    note k2 = foldl_accept_bucket_keeps
                [where E = E and t = t and r = "accept_bucket E t r1 b" and bs = post]
    have d1: "deadline r1 = deadline r" using k1 by (simp add: r1_def)
    have "inFlight r \<le> inFlight r1" using k1 by (simp add: r1_def)
    also have "\<dots> \<le> inFlight (accept_bucket E t r1 b)" by (rule kb(2))
    also have "\<dots> \<le> inFlight r2" using k2 by (simp add: r2')
    finally have pos: "0 < inFlight r2" using h(3) by simp
    have acc: "accept E t r =
              Inr (r2\<lparr> Receiver.Mchan := Receiver.Mchan r2 @ [MTime ''receiver.accept''],
                       inFlight := inFlight r2 - 1 \<rparr>)"
      using pos by (simp add: accept_def accept_request_def h(1) whole Done_def)
    have a: "Register (accept_bucket E t r1 b) (Id_b b) =
                   Some (case Register r1 (Id_b b) of None \<Rightarrow> b | Some e \<Rightarrow> Merge E e b)
             \<and> Id_b b \<in> dom (Register r2)"
      if "age \<le> sint (deadline r)"
    proof -
      have "accept_bucket E t r1 b = addRegister E b (r1\<lparr> inFlight := inFlight r1 + 1 \<rparr>)"
        using that d1 by (simp add: accept_bucket_def word_sle_eq age_def)
      then have reg: "Register (accept_bucket E t r1 b) (Id_b b) =
                   Some (case Register r1 (Id_b b) of None \<Rightarrow> b | Some e \<Rightarrow> Merge E e b)"
        by (simp add: addRegister_explicit)
      then have "Id_b b \<in> dom (Register (accept_bucket E t r1 b))" by blast
      moreover have "dom (Register (accept_bucket E t r1 b)) \<subseteq> dom (Register r2)"
        using k2 by (simp add: r2')
      ultimately show ?thesis using reg by blast
    qed
    have d: "accept_bucket E t r1 b =
                   r1\<lparr> Receiver.Mchan := Receiver.Mchan r1 @ [MCount ''receiver.drop'' 1] \<rparr>"
      if "sint (deadline r) < age"
      using that d1 by (simp add: accept_bucket_def word_sle_eq age_def)
    show ?thesis using acc d1 a d by blast
  qed
  show ?thesis using c1 c2 c3 c4 c5 by blast
qed

theorem accept_deadline_boundary_witness:
  "Delay ex_collaborators (Id_b (ex_bucket 1)) 65 = deadline ex_receiver
   \<and> accept_bucket ex_collaborators 65 ex_receiver (ex_bucket 1)
       = ex_receiver\<lparr> inFlight := 1, numBuckets := 1,
                      Receiver.Mchan := [MCount ''receiver.add-bucket'' 1],
                      Register := [ex_id \<mapsto> ex_bucket 1] \<rparr>
   \<and> sint (Delay ex_collaborators (Id_b (ex_bucket 1)) 66) = sint (deadline ex_receiver) + 1
   \<and> accept_bucket ex_collaborators 66 ex_receiver (ex_bucket 1)
       = ex_receiver\<lparr> Receiver.Mchan := [MCount ''receiver.drop'' 1] \<rparr>
   \<and> Inbox (Receive [1] [] ex_receiver) = \<lparr> Body = [1], Opts = [] \<rparr> # []
   \<and> BuildBuckets ex_collaborators [1] [] = [] @ ex_bucket 1 # []
   \<and> 0 < inFlight (Receive [1] [] ex_receiver)
   \<and> accept ex_collaborators 65 (Receive [1] [] ex_receiver)
       = Inr (ex_receiver\<lparr> inFlight := 1, numBuckets := 1,
                Receiver.Mchan := [MCount ''receiver.add-bucket'' 1, MTime ''receiver.accept''],
                Register := [ex_id \<mapsto> ex_bucket 1],
                logger := [Debugf_Received [1] []] \<rparr>)
   \<and> accept ex_collaborators 66 (Receive [1] [] ex_receiver)
       = Inr (ex_receiver\<lparr> Receiver.Mchan := [MCount ''receiver.drop'' 1, MTime ''receiver.accept''],
                logger := [Debugf_Received [1] []] \<rparr>)"
proof -
  have a: "Delay ex_collaborators (Id_b (ex_bucket 1)) 65 = deadline ex_receiver"
    by (simp add: ex_id_def ex_bucket_def ex_collaborators_def ex_receiver_def NewReceiver_def)
  have b: "sint (Delay ex_collaborators (Id_b (ex_bucket 1)) 66) = sint (deadline ex_receiver) + 1"
    by (simp add: ex_id_def ex_bucket_def ex_collaborators_def ex_receiver_def NewReceiver_def)
  have i: "inFlight ex_receiver = 0" "Receiver.Mchan ex_receiver = []"
    "numBuckets ex_receiver = 0" "Register ex_receiver = Map.empty"
    by (simp_all add: ex_receiver_def NewReceiver_def)
  have h: "Inbox (Receive [1] [] ex_receiver) = \<lparr> Body = [1], Opts = [] \<rparr> # []
           \<and> BuildBuckets ex_collaborators (Body \<lparr> Body = [1], Opts = [] \<rparr>)
                (Opts \<lparr> Body = [1], Opts = [] \<rparr>) = [] @ ex_bucket 1 # []
           \<and> 0 < inFlight (Receive [1] [] ex_receiver)"
    by (simp add: Receive_def ex_receiver_def NewReceiver_def ex_collaborators_def)
  note A = accept_deadline_boundary
             [where E = ex_collaborators and b = "ex_bucket 1" and t = 65 and r = ex_receiver]
  note D = accept_deadline_boundary
             [where E = ex_collaborators and b = "ex_bucket 1" and t = 66 and r = ex_receiver]
  note RA = accept_deadline_boundary
             [where E = ex_collaborators and b = "ex_bucket 1" and t = 65
                and r = "Receive [1] [] ex_receiver" and req = "\<lparr> Body = [1], Opts = [] \<rparr>"
                and rest = "[]" and pre = "[]" and post = "[]"]
  note RD = accept_deadline_boundary
             [where E = ex_collaborators and b = "ex_bucket 1" and t = 66
                and r = "Receive [1] [] ex_receiver" and req = "\<lparr> Body = [1], Opts = [] \<rparr>"
                and rest = "[]" and pre = "[]" and post = "[]"]
  have p1: "accept_bucket ex_collaborators 65 ex_receiver (ex_bucket 1)
       = ex_receiver\<lparr> inFlight := 1, numBuckets := 1,
                      Receiver.Mchan := [MCount ''receiver.add-bucket'' 1],
                      Register := [ex_id \<mapsto> ex_bucket 1] \<rparr>"
    using A a by (simp add: i) (simp add: ex_bucket_def)
  have p2: "accept_bucket ex_collaborators 66 ex_receiver (ex_bucket 1)
       = ex_receiver\<lparr> Receiver.Mchan := [MCount ''receiver.drop'' 1] \<rparr>"
    using D b by (simp add: i)
  have p3: "accept ex_collaborators 65 (Receive [1] [] ex_receiver)
       = Inr (ex_receiver\<lparr> inFlight := 1, numBuckets := 1,
                Receiver.Mchan := [MCount ''receiver.add-bucket'' 1, MTime ''receiver.accept''],
                Register := [ex_id \<mapsto> ex_bucket 1],
                logger := [Debugf_Received [1] []] \<rparr>)"
    using RA h by (simp add: ex_defs)
  have p4: "accept ex_collaborators 66 (Receive [1] [] ex_receiver)
       = Inr (ex_receiver\<lparr> Receiver.Mchan := [MCount ''receiver.drop'' 1, MTime ''receiver.accept''],
                logger := [Debugf_Received [1] []] \<rparr>)"
    using RD h by (simp add: ex_defs)
  show ?thesis using a b h p1 p2 p3 p4 by (simp add: ex_collaborators_def)
qed

subsection \<open>Insert or merge\<close>

lemma Register_addRegister:
  "Register (addRegister E b r) =
     (case Register r (Id_b b) of
        None \<Rightarrow> (Register r)(Id_b b \<mapsto> b)
      | Some e \<Rightarrow> (Register r)(Id_b b \<mapsto> Merge E e b))"
  by (simp add: addRegister_def Let_def split: option.splits)

lemma wellkeyed_addRegister:
  assumes "\<forall>a b. Id_b (Merge E a b) = Id_b a" and "wellkeyed (Register r)"
  shows "wellkeyed (Register (addRegister E b r))"
  using assms unfolding wellkeyed_def Register_addRegister
  by (auto split: option.splits)

lemma wellkeyed_accept_bucket:
  assumes "\<forall>a b. Id_b (Merge E a b) = Id_b a" and "wellkeyed (Register r)"
  shows "wellkeyed (Register (accept_bucket E t r b))"
proof (cases "Delay E (Id_b b) t \<le>s deadline r")
  case True
  have "wellkeyed (Register (r\<lparr> inFlight := inFlight r + 1 \<rparr>))" using assms(2) by simp
  from wellkeyed_addRegister [OF assms(1) this] True show ?thesis
    by (simp add: accept_bucket_def)
next
  case False
  then show ?thesis using assms(2) by (simp add: accept_bucket_def)
qed

lemma wellkeyed_foldl_accept_bucket:
  assumes "\<forall>a b. Id_b (Merge E a b) = Id_b a"
  shows "wellkeyed (Register r) \<Longrightarrow> wellkeyed (Register (foldl (accept_bucket E t) r bs))"
  by (induction bs arbitrary: r) (simp_all add: wellkeyed_accept_bucket [OF assms])

lemma Register_Done: "Done r = Inr r' \<Longrightarrow> Register r' = Register r"
  by (auto simp: Done_def split: if_splits)

lemma wellkeyed_accept:
  assumes "\<forall>a b. Id_b (Merge E a b) = Id_b a" and "wellkeyed (Register r)"
    and "accept E t r = Inr r'"
  shows "wellkeyed (Register r')"
proof (cases "Inbox r")
  case Nil
  then show ?thesis using assms by (simp add: accept_def)
next
  case (Cons req rest)
  let ?r1 = "foldl (accept_bucket E t) (r\<lparr> Inbox := rest \<rparr>) (BuildBuckets E (Body req) (Opts req))"
  have "wellkeyed (Register (r\<lparr> Inbox := rest \<rparr>))" using assms(2) by simp
  then have w: "wellkeyed (Register ?r1)"
    by (rule wellkeyed_foldl_accept_bucket [OF assms(1)])
  have "Done (?r1\<lparr> Receiver.Mchan := Receiver.Mchan ?r1 @ [MTime ''receiver.accept''] \<rparr>) = Inr r'"
    using assms(3) Cons by (simp add: accept_def accept_request_def Let_def)
  from Register_Done [OF this] w show ?thesis by simp
qed

lemma wellkeyed_transfer_loop:
  "wellkeyed (Register r) \<Longrightarrow> wellkeyed (Register (transfer_loop ks r))"
proof (induction ks arbitrary: r)
  case Nil
  then show ?case by simp
next
  case (Cons k ks)
  show ?case
  proof (cases "Register r k")
    case None
    then show ?thesis using Cons by simp
  next
    case (Some m)
    have "wellkeyed (Register (r\<lparr> Register := (Register r)(k := None), Outbox := Outbox r @ [m] \<rparr>))"
      using Cons.prems by (auto simp: wellkeyed_def)
    from Cons.IH [OF this] Some show ?thesis by simp
  qed
qed

lemma Register_outlet: "Receiver_outlet E r = Inr r' \<Longrightarrow> Register r' = Register r"
  by (auto simp: Receiver_outlet_def outlet_bucket_def Let_def Done_def
           split: list.splits prod.splits option.splits if_splits)

lemma wellkeyed_step:
  assumes "\<forall>a b. Id_b (Merge E a b) = Id_b a" and "wellkeyed (Register r)"
    and "receiver_step E e r = Inr r'"
  shows "wellkeyed (Register r')"
proof (cases e)
  case (DoReceive b os)
  then show ?thesis using assms by (auto simp: Receive_def)
next
  case (DoAccept t)
  then show ?thesis using assms wellkeyed_accept [of E r t r'] by simp
next
  case (DoTransfer ks)
  then show ?thesis using assms wellkeyed_transfer_loop [of r ks] by (auto simp: transfer_def)
next
  case DoOutlet
  then show ?thesis using assms Register_outlet [of E r r'] by simp
qed

lemma wellkeyed_run:
  assumes "\<forall>a b. Id_b (Merge E a b) = Id_b a"
  shows "wellkeyed (Register r) \<Longrightarrow> receiver_run E evs r = Inr r' \<Longrightarrow> wellkeyed (Register r')"
proof (induction evs arbitrary: r)
  case Nil
  then show ?case by simp
next
  case (Cons e es)
  from Cons.prems(2) obtain r1 where s: "receiver_step E e r = Inr r1"
    and rest: "receiver_run E es r1 = Inr r'"
    by (auto split: sum.splits)
  from wellkeyed_step [OF assms Cons.prems(1) s] rest Cons.IH show ?case by blast
qed

lemma wellkeyed_reach:
  assumes "\<forall>a b. Id_b (Merge E a b) = Id_b a"
  shows "receiver_reach E r \<Longrightarrow> wellkeyed (Register r)"
proof (induction rule: receiver_reach.induct)
  case (reach_New buffsize flushInt ccu rcvrd s)
  show ?case by (simp add: NewReceiver_def wellkeyed_def)
next
  case (reach_Receive r b os)
  then show ?case by (simp add: Receive_def)
next
  case (reach_take r req rest)
  then show ?case by simp
next
  case (reach_Add r)
  then show ?case by simp
next
  case (reach_addRegister r b)
  then show ?case by (simp add: wellkeyed_addRegister [OF assms])
next
  case (reach_drop r)
  then show ?case by simp
next
  case (reach_accept_end r r')
  from Register_Done [OF reach_accept_end(2)] reach_accept_end(3) show ?case by simp
next
  case (reach_transfer r ks)
  then show ?case by (simp add: transfer_def wellkeyed_transfer_loop)
next
  case (reach_outlet r r')
  from Register_outlet [OF reach_outlet(2)] reach_outlet(3) show ?case by simp
qed

text \<open>The states of the schedules above are among these states, and so is every state on
  which \<open>accept\<close>, serving a request in such a schedule, calls \<open>addRegister\<close>.\<close>
lemma reach_accept_bucket:
  assumes "receiver_reach E r"
  shows "receiver_reach E (accept_bucket E t r b)"
proof (cases "Delay E (Id_b b) t \<le>s deadline r")
  case True
  have "receiver_reach E (addRegister E b (r\<lparr> inFlight := inFlight r + 1 \<rparr>))"
    by (intro reach_addRegister reach_Add assms)
  then show ?thesis using True by (simp only: accept_bucket_def if_True)
next
  case False
  have "receiver_reach E (r\<lparr> Receiver.Mchan := Receiver.Mchan r @ [MCount ''receiver.drop'' 1] \<rparr>)"
    by (intro reach_drop assms)
  then show ?thesis using False by (simp only: accept_bucket_def if_False)
qed

lemma reach_foldl_accept_bucket:
  "receiver_reach E r \<Longrightarrow> receiver_reach E (foldl (accept_bucket E t) r bs)"
  by (induction bs arbitrary: r) (simp_all add: reach_accept_bucket)

lemma reach_step:
  assumes "receiver_reach E r" and "receiver_step E e r = Inr r'"
  shows "receiver_reach E r'"
proof (cases e)
  case (DoReceive b os)
  then show ?thesis using assms by (auto intro: reach_Receive)
next
  case (DoAccept t)
  show ?thesis
  proof (cases "Inbox r")
    case Nil
    then show ?thesis using assms DoAccept by (simp add: accept_def)
  next
    case (Cons req rest)
    let ?r1 = "foldl (accept_bucket E t) (r\<lparr> Inbox := rest \<rparr>) (BuildBuckets E (Body req) (Opts req))"
    have "receiver_reach E ?r1"
      by (rule reach_foldl_accept_bucket) (rule reach_take [OF assms(1) Cons])
    moreover have "Done (?r1\<lparr> Receiver.Mchan := Receiver.Mchan ?r1 @ [MTime ''receiver.accept''] \<rparr>)
                   = Inr r'"
      using assms(2) DoAccept Cons by (simp add: accept_def accept_request_def Let_def)
    ultimately show ?thesis by (rule reach_accept_end)
  qed
next
  case (DoTransfer ks)
  then show ?thesis using assms by (auto intro: reach_transfer)
next
  case DoOutlet
  then show ?thesis using assms by (auto intro: reach_outlet)
qed

lemma reach_run:
  "receiver_reach E r \<Longrightarrow> receiver_run E evs r = Inr r' \<Longrightarrow> receiver_reach E r'"
proof (induction evs arbitrary: r)
  case Nil
  then show ?case by simp
next
  case (Cons e es)
  from Cons.prems(2) obtain r1 where s: "receiver_step E e r = Inr r1"
    and rest: "receiver_run E es r1 = Inr r'"
    by (auto split: sum.splits)
  from reach_step [OF Cons.prems(1) s] rest Cons.IH show ?case by blast
qed

lemma reach_call_state:
  assumes "receiver_run E evs (NewReceiver buffsize flushInt ccu rcvrd s) = Inr r0"
    and "Inbox r0 = req # rest"
  shows "receiver_reach E
           ((foldl (accept_bucket E t) (r0\<lparr> Inbox := rest \<rparr>) pre)
              \<lparr> inFlight := inFlight (foldl (accept_bucket E t) (r0\<lparr> Inbox := rest \<rparr>) pre) + 1 \<rparr>)"
proof -
  have "receiver_reach E r0" using reach_run [OF reach_New assms(1)] .
  then have "receiver_reach E (r0\<lparr> Inbox := rest \<rparr>)" using assms(2) by (rule reach_take)
  then have "receiver_reach E (foldl (accept_bucket E t) (r0\<lparr> Inbox := rest \<rparr>) pre)"
    by (rule reach_foldl_accept_bucket)
  then show ?thesis by (rule reach_Add)
qed

text \<open>
  Claim C8. In every state \<open>r\<close> a receiver can be in between two statements of its
  goroutines, in any interleaving from \<open>NewReceiver\<close> on (the states \<open>accept\<close> calls
  \<open>addRegister\<close> on, right after it has counted the bucket in flight, are among them),
  \<open>addRegister\<close> looks the bucket's identity up in the register: when it is absent the
  bucket becomes the entry, when an entry \<open>e\<close> is there the entry becomes \<open>Merge e b\<close>,
  and then \<open>e\<close> and \<open>b\<close> have the same identity. Either way the count of buckets goes up
  and the branch is reported on the metrics channel. \<open>Merge\<close> is not among the sources;
  what is assumed of it is that it leaves the identity of its receiver alone.
\<close>
theorem addRegister_insert_or_merge:
  assumes "\<forall>a b. Id_b (Merge E a b) = Id_b a"
    and "receiver_reach E r"
  shows "(case Register r (Id_b b) of
            None \<Rightarrow>
              addRegister E b r =
                r\<lparr> numBuckets := numBuckets r + 1,
                   Receiver.Mchan := Receiver.Mchan r @ [MCount ''receiver.add-bucket'' 1],
                   Register := (Register r)(Id_b b \<mapsto> b) \<rparr>
          | Some e \<Rightarrow>
              Id_b e = Id_b b
              \<and> addRegister E b r =
                  r\<lparr> numBuckets := numBuckets r + 1,
                     Receiver.Mchan := Receiver.Mchan r @ [MCount ''receiver.merge-bucket'' 1],
                     Register := (Register r)(Id_b b \<mapsto> Merge E e b) \<rparr>)"
proof -
  from wellkeyed_reach [OF assms] have "wellkeyed (Register r)" .
  then show ?thesis
    by (auto simp: addRegister_def Let_def wellkeyed_def split: option.splits)
qed

text \<open>The witness is the second call of \<open>addRegister\<close> in the run that shows the leak of
  the in-flight counter below: the request [1, 2] has been received and taken, its first
  bucket has been admitted, and the second has just been counted in flight.\<close>
theorem addRegister_insert_or_merge_witness:
  "(\<forall>a b. Id_b (Merge ex_collaborators a b) = Id_b a)
   \<and> receiver_reach ex_collaborators
       (ex_receiver\<lparr> Register := [ex_id \<mapsto> ex_bucket 1], numBuckets := 1, inFlight := 3,
                Receiver.Mchan := [MCount ''receiver.add-bucket'' 1],
                logger := [Debugf_Received [1, 2] []] \<rparr>)
   \<and> Id_b (ex_bucket 1) = Id_b (ex_bucket 2)
   \<and> addRegister ex_collaborators (ex_bucket 2)
        (ex_receiver\<lparr> Register := [ex_id \<mapsto> ex_bucket 1], numBuckets := 1, inFlight := 3,
                Receiver.Mchan := [MCount ''receiver.add-bucket'' 1],
                logger := [Debugf_Received [1, 2] []] \<rparr>)
       = ex_receiver\<lparr> Register := [ex_id \<mapsto> \<lparr> Id_b = ex_id, Vals = [1, 2], Sum = 1 \<rparr>],
                numBuckets := 2, inFlight := 3,
                Receiver.Mchan := [MCount ''receiver.add-bucket'' 1,
                                   MCount ''receiver.merge-bucket'' 1],
                logger := [Debugf_Received [1, 2] []] \<rparr>"
proof -
  define r where "r = ex_receiver\<lparr> Register := [ex_id \<mapsto> ex_bucket 1], numBuckets := 1,
                inFlight := 3, Receiver.Mchan := [MCount ''receiver.add-bucket'' 1],
                logger := [Debugf_Received [1, 2] []] \<rparr>"
  have m: "\<forall>a b. Id_b (Merge ex_collaborators a b) = Id_b a"
    by (simp add: ex_collaborators_def)
  let ?r1 = "Receive [1, 2] [] (NewReceiver 8 1 1 5 ([] :: bucket list))"
  let ?r2 = "?r1\<lparr> Inbox := [] \<rparr>"
  let ?r3 = "?r2\<lparr> inFlight := inFlight ?r2 + 1 \<rparr>"
  let ?r4 = "addRegister ex_collaborators (ex_bucket 1) ?r3"
  let ?r5 = "?r4\<lparr> inFlight := inFlight ?r4 + 1 \<rparr>"
  have "receiver_reach ex_collaborators ?r1" by (intro reach_Receive reach_New)
  moreover have "Inbox ?r1 = \<lparr> Body = [1, 2], Opts = [] \<rparr> # []"
    by (simp add: Receive_def NewReceiver_def)
  ultimately have "receiver_reach ex_collaborators ?r2" by (rule reach_take)
  then have "receiver_reach ex_collaborators ?r5"
    by (intro reach_Add reach_addRegister)
  moreover have "?r5 = r" by (simp add: r_def ex_defs)
  ultimately have reach: "receiver_reach ex_collaborators r" by simp
  have look: "Register r (Id_b (ex_bucket 2)) = Some (ex_bucket 1)"
    by (simp add: r_def ex_bucket_def)
  from addRegister_insert_or_merge [OF m reach, of "ex_bucket 2"]
  show ?thesis using m reach look
    by (simp add: r_def [symmetric]) (simp add: r_def ex_bucket_def ex_collaborators_def)
qed

subsection \<open>The in-flight counter\<close>

lemma addRegister_balance:
  assumes "finite (dom (Register r))"
  shows "finite (dom (Register (addRegister E b r)))
       \<and> card (dom (Register (addRegister E b r))) + merges (addRegister E b r)
           = Suc (card (dom (Register r)) + merges r)
       \<and> inFlight (addRegister E b r) = inFlight r
       \<and> Inbox (addRegister E b r) = Inbox r
       \<and> Outbox (addRegister E b r) = Outbox r"
proof (cases "Register r (Id_b b)")
  case None
  then have "Id_b b \<notin> dom (Register r)" by auto
  then show ?thesis using assms None
    by (simp add: addRegister_def Let_def merges_def)
next
  case (Some e)
  then have "insert (Id_b b) (dom (Register r)) = dom (Register r)" by auto
  then show ?thesis using assms Some
    by (simp add: addRegister_def Let_def merges_def)
qed

lemma accept_bucket_balance:
  assumes "finite (dom (Register r))"
  shows "finite (dom (Register (accept_bucket E t r b)))
       \<and> inFlight r + card (dom (Register (accept_bucket E t r b))) + merges (accept_bucket E t r b)
           = inFlight (accept_bucket E t r b) + card (dom (Register r)) + merges r
       \<and> Inbox (accept_bucket E t r b) = Inbox r
       \<and> Outbox (accept_bucket E t r b) = Outbox r"
proof (cases "Delay E (Id_b b) t \<le>s deadline r")
  case True
  have "finite (dom (Register (r\<lparr> inFlight := inFlight r + 1 \<rparr>)))" using assms by simp
  from addRegister_balance [OF this, of E b] True show ?thesis
    by (simp add: accept_bucket_def merges_def)
next
  case False
  then show ?thesis using assms by (simp add: accept_bucket_def merges_def)
qed

lemma foldl_accept_bucket_balance:
  "finite (dom (Register r)) \<Longrightarrow>
   finite (dom (Register (foldl (accept_bucket E t) r bs)))
   \<and> inFlight r + card (dom (Register (foldl (accept_bucket E t) r bs)))
        + merges (foldl (accept_bucket E t) r bs)
       = inFlight (foldl (accept_bucket E t) r bs) + card (dom (Register r)) + merges r
   \<and> Inbox (foldl (accept_bucket E t) r bs) = Inbox r
   \<and> Outbox (foldl (accept_bucket E t) r bs) = Outbox r"
proof (induction bs arbitrary: r)
  case Nil
  then show ?case by simp
next
  case (Cons b bs)
  note s = accept_bucket_balance [OF Cons.prems, of E t b]
  from s have f: "finite (dom (Register (accept_bucket E t r b)))" by simp
  note i = Cons.IH [OF f]
  show ?case using s i by simp
qed

lemma balanced_accept:
  assumes "balanced r"
  shows "\<exists>r'. accept E t r = Inr r' \<and> balanced r'"
proof (cases "Inbox r")
  case Nil
  then show ?thesis using assms by (simp add: accept_def)
next
  case (Cons req rest)
  let ?r0 = "r\<lparr> Inbox := rest \<rparr>"
  let ?r1 = "foldl (accept_bucket E t) ?r0 (BuildBuckets E (Body req) (Opts req))"
  let ?r2 = "?r1\<lparr> Receiver.Mchan := Receiver.Mchan ?r1 @ [MTime ''receiver.accept''] \<rparr>"
  have f0: "finite (dom (Register ?r0))" using assms by (simp add: balanced_def)
  note fb = foldl_accept_bucket_balance [OF f0, of E t "BuildBuckets E (Body req) (Opts req)"]
  have i0: "inFlight ?r0
            = Suc (length rest + card (dom (Register ?r0)) + length (Outbox ?r0) + merges ?r0)"
    using assms Cons by (simp add: balanced_def merges_def)
  have m2: "merges ?r2 = merges ?r1" by (simp add: merges_def)
  have i2: "inFlight ?r2
            = Suc (length rest + card (dom (Register ?r2)) + length (Outbox ?r2) + merges ?r2)"
    using fb i0 m2 by simp
  have a: "accept E t r = Done ?r2"
    using Cons by (simp add: accept_def accept_request_def Let_def)
  have d: "Done ?r2 = Inr (?r2\<lparr> inFlight := inFlight ?r2 - 1 \<rparr>)"
    using i2 by (simp add: Done_def)
  have "balanced (?r2\<lparr> inFlight := inFlight ?r2 - 1 \<rparr>)"
    using i2 fb by (simp add: balanced_def merges_def)
  then show ?thesis using a d by simp
qed

lemma transfer_loop_balance:
  "finite (dom (Register r)) \<Longrightarrow>
   finite (dom (Register (transfer_loop ks r)))
   \<and> card (dom (Register (transfer_loop ks r))) + length (Outbox (transfer_loop ks r))
       = card (dom (Register r)) + length (Outbox r)
   \<and> Inbox (transfer_loop ks r) = Inbox r
   \<and> inFlight (transfer_loop ks r) = inFlight r
   \<and> Receiver.Mchan (transfer_loop ks r) = Receiver.Mchan r"
proof (induction ks arbitrary: r)
  case Nil
  then show ?case by simp
next
  case (Cons k ks)
  show ?case
  proof (cases "Register r k")
    case None
    then show ?thesis using Cons by simp
  next
    case (Some m)
    define r1 where "r1 = r\<lparr> Register := (Register r)(k := None), Outbox := Outbox r @ [m] \<rparr>"
    have kin: "k \<in> dom (Register r)" using Some by auto
    have f: "finite (dom (Register r1))" using Cons.prems by (simp add: r1_def)
    have "0 < card (dom (Register r))"
      using Cons.prems kin by (auto simp: card_gt_0_iff)
    then have c: "card (dom (Register r1)) + length (Outbox r1)
                  = card (dom (Register r)) + length (Outbox r)"
      using Cons.prems kin by (simp add: r1_def card_Diff_singleton)
    have o: "Inbox r1 = Inbox r" "inFlight r1 = inFlight r" "Receiver.Mchan r1 = Receiver.Mchan r"
      by (simp_all add: r1_def)
    have t: "transfer_loop (k # ks) r = transfer_loop ks r1"
      using Some by (simp add: r1_def)
    show ?thesis unfolding t using Cons.IH [OF f] c o by simp
  qed
qed

lemma balanced_transfer: "balanced r \<Longrightarrow> balanced (transfer ks r)"
proof -
  assume b: "balanced r"
  then have "finite (dom (Register r))" by (simp add: balanced_def)
  from transfer_loop_balance [OF this, of ks] b show ?thesis
    by (simp add: balanced_def transfer_def merges_def)
qed

lemma balanced_outlet:
  assumes "balanced r"
  shows "\<exists>r'. Receiver_outlet E r = Inr r' \<and> balanced r'"
proof (cases "Outbox r")
  case Nil
  then show ?thesis using assms by (simp add: Receiver_outlet_def)
next
  case (Cons b rest)
  obtain err st where p: "Put E (Store r) b = (err, st)" by (cases "Put E (Store r) b")
  have "0 < inFlight r" using assms Cons by (simp add: balanced_def)
  then show ?thesis using assms Cons p
    by (cases err)
       (simp_all add: Receiver_outlet_def outlet_bucket_def Let_def Done_def balanced_def merges_def)
qed

lemma balanced_Receive: "balanced r \<Longrightarrow> balanced (Receive b os r)"
  by (simp add: balanced_def Receive_def merges_def)

lemma balanced_step:
  assumes "balanced r"
  shows "\<exists>r'. receiver_step E e r = Inr r' \<and> balanced r'"
proof (cases e)
  case (DoReceive b os)
  then show ?thesis using assms by (simp add: balanced_Receive)
next
  case (DoAccept t)
  then show ?thesis using balanced_accept [OF assms] by simp
next
  case (DoTransfer ks)
  then show ?thesis using assms by (simp add: balanced_transfer)
next
  case DoOutlet
  then show ?thesis using balanced_outlet [OF assms] by simp
qed

lemma balanced_run:
  "balanced r \<Longrightarrow> \<exists>r'. receiver_run E evs r = Inr r' \<and> balanced r'"
proof (induction evs arbitrary: r)
  case Nil
  then show ?case by simp
next
  case (Cons e es)
  from balanced_step [OF Cons.prems, of E e] obtain r1
    where s: "receiver_step E e r = Inr r1" and b: "balanced r1" by blast
  from Cons.IH [OF b] s show ?case by simp
qed

text \<open>
  The account of the counter, for every schedule from a new receiver: no \<open>Done\<close> ever
  panics, and the counter is the number of requests, register entries and buckets still
  on their way plus the number of merges so far. So once everything has been persisted
  the counter is the number of merges, and it is zero only when there has been none.
\<close>
lemma inFlight_account:
  "\<exists>r. receiver_run E evs (NewReceiver buffsize flushInt ccu rcvrd s) = Inr r
       \<and> finite (dom (Register r))
       \<and> inFlight r = length (Inbox r) + card (dom (Register r)) + length (Outbox r) + merges r"
proof -
  have "balanced (NewReceiver buffsize flushInt ccu rcvrd s)"
    by (simp add: balanced_def NewReceiver_def merges_def)
  from balanced_run [OF this, of E evs] show ?thesis by (simp add: balanced_def)
qed

text \<open>
  Claim C4 does not hold of the code. One request whose two measurements have the same
  identity, both within the deadline: \<open>accept\<close> counts both in flight and the second is
  merged into the entry of the first, the tick moves the one entry to the outbox, and
  \<open>outlet\<close> persists it (the store holds the merged bucket) and calls \<open>Done\<close> once.
  Nothing is left in the inbox, the register or the outbox, and the counter is 1: \<open>Wait\<close>
  does not return.
\<close>
theorem inFlight_leaks_on_merge:
  "receiver_run ex_collaborators
     [DoReceive [1, 2] [], DoAccept 65, DoTransfer [ex_id], DoOutlet] ex_receiver
   = Inr \<lparr> Register = Map.empty, Inbox = [], Outbox = [], FlushInterval = 1, NumOutlets = 1,
           Store = [\<lparr> Id_b = ex_id, Vals = [1, 2], Sum = 1 \<rparr>],
           numBuckets = 2, numReqs = 0, deadline = 5,
           Receiver.Mchan = [MCount ''receiver.add-bucket'' 1, MCount ''receiver.merge-bucket'' 1,
                             MTime ''receiver.accept'', MTime ''receiver.outlet''],
           inFlight = 1, logger = [Debugf_Received [1, 2] []] \<rparr>"
  by (simp add: ex_defs)

subsection \<open>A failing store\<close>

text \<open>
  Claim C5 as stated fails in one part: no counter records the failure. A run in which
  the only \<open>Put\<close> fails leaves on the metrics channel what a run in which it succeeds
  leaves, the \<open>receiver.outlet\<close> timing last; the failure is in the log alone.
\<close>
theorem put_failure_not_counted_counterexample:
  "receiver_run ex_failing_store
     [DoReceive [1] [], DoAccept 65, DoTransfer [ex_id], DoOutlet] ex_receiver
   = Inr \<lparr> Register = Map.empty, Inbox = [], Outbox = [], FlushInterval = 1, NumOutlets = 1,
           Store = [], numBuckets = 1, numReqs = 0, deadline = 5,
           Receiver.Mchan = [MCount ''receiver.add-bucket'' 1,
                             MTime ''receiver.accept'', MTime ''receiver.outlet''],
           inFlight = 0, logger = [Debugf_Received [1] [], Errorf_error ''store down''] \<rparr>
   \<and> Receiver.Mchan (projr (receiver_run ex_collaborators
        [DoReceive [1] [], DoAccept 65, DoTransfer [ex_id], DoOutlet] ex_receiver))
     = [MCount ''receiver.add-bucket'' 1, MTime ''receiver.accept'', MTime ''receiver.outlet'']"
  by (simp add: ex_defs)

text \<open>
  Claim C5, amended. In every state the receiver reaches from \<open>NewReceiver\<close>, when
  \<open>outlet\<close> takes a bucket from the outbox and \<open>Put\<close> fails with \<open>e\<close>: the error is
  logged; the metrics channel gets the \<open>receiver.outlet\<close> timing and nothing else; the
  store is what that one \<open>Put\<close> left; the bucket is gone from the outbox and is nowhere
  else; the in-flight counter goes down by one; the step does not panic, and the worker
  goes on from that state with whatever comes next.
\<close>
theorem put_failure_logged_and_dropped:
  assumes "receiver_run E evs (NewReceiver buffsize flushInt ccu rcvrd s) = Inr r"
    and "Outbox r = b # rest"
    and "Put E (Store r) b = (Some e, st)"
  shows "Receiver_outlet E r =
           Inr (r\<lparr> Outbox := rest, Store := st,
                   logger := logger r @ [Errorf_error e],
                   Receiver.Mchan := Receiver.Mchan r @ [MTime ''receiver.outlet''],
                   inFlight := inFlight r - 1 \<rparr>)
       \<and> 0 < inFlight r
       \<and> receiver_run E (DoOutlet # es) r =
           receiver_run E es
             (r\<lparr> Outbox := rest, Store := st,
                 logger := logger r @ [Errorf_error e],
                 Receiver.Mchan := Receiver.Mchan r @ [MTime ''receiver.outlet''],
                 inFlight := inFlight r - 1 \<rparr>)"
proof -
  from inFlight_account [of E evs buffsize flushInt ccu rcvrd s] assms(1)
  have "inFlight r = length (Inbox r) + card (dom (Register r)) + length (Outbox r) + merges r"
    by simp
  then have pos: "0 < inFlight r" using assms(2) by simp
  then have "Receiver_outlet E r =
           Inr (r\<lparr> Outbox := rest, Store := st,
                   logger := logger r @ [Errorf_error e],
                   Receiver.Mchan := Receiver.Mchan r @ [MTime ''receiver.outlet''],
                   inFlight := inFlight r - 1 \<rparr>)"
    using assms(2,3) by (simp add: Receiver_outlet_def outlet_bucket_def Done_def)
  then show ?thesis using pos by simp
qed

theorem put_failure_logged_and_dropped_witness:
  "receiver_run ex_failing_store [DoReceive [1] [], DoAccept 65, DoTransfer [ex_id]] ex_receiver
     = Inr (ex_receiver\<lparr> Outbox := [ex_bucket 1], numBuckets := 1, inFlight := 1,
              Receiver.Mchan := [MCount ''receiver.add-bucket'' 1, MTime ''receiver.accept''],
              logger := [Debugf_Received [1] []] \<rparr>)
   \<and> Put ex_failing_store [] (ex_bucket 1) = (Some ''store down'', [])
   \<and> Receiver_outlet ex_failing_store
        (ex_receiver\<lparr> Outbox := [ex_bucket 1], numBuckets := 1, inFlight := 1,
              Receiver.Mchan := [MCount ''receiver.add-bucket'' 1, MTime ''receiver.accept''],
              logger := [Debugf_Received [1] []] \<rparr>)
     = Inr (ex_receiver\<lparr> Outbox := [], numBuckets := 1, inFlight := 0,
              Receiver.Mchan := [MCount ''receiver.add-bucket'' 1, MTime ''receiver.accept'',
                                 MTime ''receiver.outlet''],
              logger := [Debugf_Received [1] [], Errorf_error ''store down''] \<rparr>)"
proof -
  define r where "r = ex_receiver\<lparr> Outbox := [ex_bucket 1], numBuckets := 1, inFlight := 1,
              Receiver.Mchan := [MCount ''receiver.add-bucket'' 1, MTime ''receiver.accept''],
              logger := [Debugf_Received [1] []] \<rparr>"
  have run: "receiver_run ex_failing_store [DoReceive [1] [], DoAccept 65, DoTransfer [ex_id]]
               (NewReceiver 8 1 1 5 []) = Inr r"
    by (simp add: r_def ex_defs)
  have ob: "Outbox r = ex_bucket 1 # []" by (simp add: r_def)
  have put: "Put ex_failing_store (Store r) (ex_bucket 1) = (Some ''store down'', [])"
    by (simp add: r_def ex_failing_store_def ex_collaborators_def ex_receiver_def NewReceiver_def)
  have st: "Store r = []" by (simp add: r_def ex_receiver_def NewReceiver_def)
  from put_failure_logged_and_dropped [OF run ob put, of "[]"]
  show ?thesis using run put st
    by (simp add: r_def [symmetric] ex_receiver_def [symmetric]) (simp add: r_def)
qed

section \<open>Properties of the DataDog outlet\<close>

lemmas ex_outlet_defs = ex_outlet_def ex_config_def ex_outlet_collaborators_def
  ex_dead_network_def ex_record_def NewDataDogOutlet_def

subsection \<open>The retry loop\<close>

lemma post_fields:
  "fst (post E k body l) = outcome E k body 0 (conn l)"
  "conn (snd (post E k body l)) = snd (RoundTrip E (conn l) k body)"
  "numRetries (snd (post E k body l)) = numRetries l"
  "quiet (snd (post E k body l)) = quiet l"
  "Mchan (snd (post E k body l)) = Mchan l @ [MTime ''outlet.post'']"
  by (simp_all add: post_def outcome_def Let_def split: prod.splits)

lemma outcome_Suc:
  "outcome E k body (Suc n) net = outcome E k body n (snd (RoundTrip E net k body))"
  by (simp add: outcome_def)

lemma postWithRetry_loop_unfold:
  assumes "i \<le> numRetries l"
  shows "postWithRetry_loop E k body i l =
     (case outcome E k body 0 (conn l) of
        None \<Rightarrow> (None, snd (post E k body l))
      | Some err \<Rightarrow>
          (let l2 = (if \<not> quiet l
                     then (snd (post E k body l))\<lparr> stdlog := stdlog (snd (post E k body l))
                                                            @ [Printf_post_error k err i] \<rparr>
                     else snd (post E k body l))
           in if i = numRetries l then (Some (PostFailed err), l2)
              else postWithRetry_loop E k body (i + 1) l2))"
  using assms
  by (subst postWithRetry_loop.simps) (simp add: Let_def post_fields split: option.splits)

lemma postWithRetry_loop_result:
  "i \<le> numRetries l \<Longrightarrow>
   post_calls l < post_calls (snd (postWithRetry_loop E k body i l))
   \<and> post_calls (snd (postWithRetry_loop E k body i l)) \<le> post_calls l + nat (numRetries l - i) + 1
   \<and> fst (postWithRetry_loop E k body i l) =
       map_option PostFailed
         (outcome E k body (post_calls (snd (postWithRetry_loop E k body i l)) - post_calls l - 1) (conn l))
   \<and> conn (snd (postWithRetry_loop E k body i l)) =
       net_after E k body (post_calls (snd (postWithRetry_loop E k body i l)) - post_calls l) (conn l)
   \<and> drops (snd (postWithRetry_loop E k body i l)) = drops l
   \<and> outbox (snd (postWithRetry_loop E k body i l)) = outbox l"
proof (induction E k body i l rule: postWithRetry_loop.induct)
  case (1 E k body i l)
  let ?p = "snd (post E k body l)"
  have pc: "post_calls ?p = Suc (post_calls l)" "drops ?p = drops l" "outbox ?p = outbox l"
    by (simp_all add: post_calls_def drops_def post_fields post_def Let_def split: prod.splits)
  show ?case
  proof (cases "outcome E k body 0 (conn l)")
    case None
    then have "postWithRetry_loop E k body i l = (None, ?p)"
      using "1.prems" by (simp add: postWithRetry_loop_unfold)
    then show ?thesis using pc None by (simp add: post_fields)
  next
    case (Some err)
    define l2 where "l2 = (if \<not> quiet l
                     then ?p\<lparr> stdlog := stdlog ?p @ [Printf_post_error k err i] \<rparr>
                     else ?p)"
    have l2: "post_calls l2 = Suc (post_calls l)" "numRetries l2 = numRetries l"
      "conn l2 = snd (RoundTrip E (conn l) k body)" "drops l2 = drops l" "outbox l2 = outbox l"
      using pc by (simp_all add: l2_def post_calls_def drops_def post_fields)
    show ?thesis
    proof (cases "i = numRetries l")
      case True
      then have "postWithRetry_loop E k body i l = (Some (PostFailed err), l2)"
        using "1.prems" Some by (simp add: postWithRetry_loop_unfold l2_def)
      then show ?thesis using l2 Some by simp
    next
      case False
      then have u: "postWithRetry_loop E k body i l = postWithRetry_loop E k body (i + 1) l2"
        using "1.prems" Some by (simp add: postWithRetry_loop_unfold l2_def Let_def)
      have le: "i + 1 \<le> numRetries l2" using False "1.prems" l2 by simp
      have ih: "post_calls l2 < post_calls (snd (postWithRetry_loop E k body (i + 1) l2))
   \<and> post_calls (snd (postWithRetry_loop E k body (i + 1) l2)) \<le> post_calls l2 + nat (numRetries l2 - (i + 1)) + 1
   \<and> fst (postWithRetry_loop E k body (i + 1) l2) =
       map_option PostFailed
         (outcome E k body (post_calls (snd (postWithRetry_loop E k body (i + 1) l2)) - post_calls l2 - 1) (conn l2))
   \<and> conn (snd (postWithRetry_loop E k body (i + 1) l2)) =
       net_after E k body (post_calls (snd (postWithRetry_loop E k body (i + 1) l2)) - post_calls l2) (conn l2)
   \<and> drops (snd (postWithRetry_loop E k body (i + 1) l2)) = drops l2
   \<and> outbox (snd (postWithRetry_loop E k body (i + 1) l2)) = outbox l2"
      proof (rule "1.IH" [OF "1.prems" refl refl _ _ _ le])
        show "fst (post E k body l) = Some err" using Some by (simp add: post_fields)
        show "l2 = (if \<not> quiet (snd (post E k body l))
           then snd (post E k body l)\<lparr>stdlog := stdlog (snd (post E k body l)) @ [Printf_post_error k err i]\<rparr>
           else snd (post E k body l))"
          by (simp add: l2_def post_fields)
        show "i \<noteq> numRetries l2" using False l2 by simp
      qed
      define c where "c = post_calls (snd (postWithRetry_loop E k body (i + 1) l2))"
      have c1: "Suc (post_calls l) < c" using ih l2 by (simp add: c_def)
      then obtain d where d: "c - post_calls l = Suc (Suc d)" "c - Suc (post_calls l) = Suc d"
        by (metis Suc_diff_Suc Suc_lessD)
      have "nat (numRetries l - i) = Suc (nat (numRetries l - (i + 1)))"
        using False "1.prems" by simp
      then show ?thesis
        unfolding u using ih l2 d c1 by (simp add: c_def [symmetric] outcome_Suc)
    qed
  qed
qed

lemma postWithRetry_loop_negative:
  "numRetries l < i \<Longrightarrow> postWithRetry_loop E k body i l = (Some UnableToPost, l)"
  by (subst postWithRetry_loop.simps) simp


lemma postWithRetry_loop_success:
  "int j \<le> numRetries l - i \<Longrightarrow>
   (\<forall>n<j. outcome E k body n (conn l) \<noteq> None) \<Longrightarrow>
   outcome E k body j (conn l) = None \<Longrightarrow>
   fst (postWithRetry_loop E k body i l) = None
   \<and> post_calls (snd (postWithRetry_loop E k body i l)) = post_calls l + j + 1"
proof (induction j arbitrary: i l)
  case 0
  then have "i \<le> numRetries l" by simp
  from postWithRetry_loop_unfold [OF this, of E k body] 0 show ?case
    by (simp add: post_calls_def post_fields)
next
  case (Suc j)
  have le: "i \<le> numRetries l" and ne: "i \<noteq> numRetries l" using Suc.prems(1) by simp_all
  from Suc.prems(2) obtain err where err: "outcome E k body 0 (conn l) = Some err" by auto
  let ?p = "snd (post E k body l)"
  define l2 where "l2 = (if \<not> quiet l
                     then ?p\<lparr> stdlog := stdlog ?p @ [Printf_post_error k err i] \<rparr>
                     else ?p)"
  have l2: "post_calls l2 = Suc (post_calls l)" "numRetries l2 = numRetries l"
      "conn l2 = snd (RoundTrip E (conn l) k body)"
    by (simp_all add: l2_def post_calls_def post_fields)
  have u: "postWithRetry_loop E k body i l = postWithRetry_loop E k body (i + 1) l2"
    using postWithRetry_loop_unfold [OF le, of E k body] err ne by (simp add: l2_def Let_def)
  have a: "int j \<le> numRetries l2 - (i + 1)" using Suc.prems(1) l2 by simp
  have b: "\<forall>n<j. outcome E k body n (conn l2) \<noteq> None"
    using Suc.prems(2) l2 by (auto simp: outcome_Suc [symmetric])
  have c: "outcome E k body j (conn l2) = None"
    using Suc.prems(3) l2 by (simp add: outcome_Suc)
  from Suc.IH [OF a b c] show ?case unfolding u using l2 by simp
qed

lemma postWithRetry_loop_exhausted:
  "i \<le> numRetries l \<Longrightarrow> j = nat (numRetries l - i) \<Longrightarrow>
   (\<forall>n\<le>j. outcome E k body n (conn l) \<noteq> None) \<Longrightarrow>
   fst (postWithRetry_loop E k body i l) = Some (PostFailed (the (outcome E k body j (conn l))))
   \<and> post_calls (snd (postWithRetry_loop E k body i l)) = post_calls l + j + 1"
proof (induction j arbitrary: i l)
  case 0
  then have eq: "i = numRetries l" by simp
  from 0 obtain err where err: "outcome E k body 0 (conn l) = Some err" by auto
  from postWithRetry_loop_unfold [OF "0.prems"(1), of E k body] eq err show ?case
    by (simp add: post_calls_def post_fields Let_def)
next
  case (Suc j)
  have le: "i \<le> numRetries l" and ne: "i \<noteq> numRetries l" using Suc.prems(1,2) by simp_all
  from Suc.prems(3) obtain err where err: "outcome E k body 0 (conn l) = Some err" by auto
  let ?p = "snd (post E k body l)"
  define l2 where "l2 = (if \<not> quiet l
                     then ?p\<lparr> stdlog := stdlog ?p @ [Printf_post_error k err i] \<rparr>
                     else ?p)"
  have l2: "post_calls l2 = Suc (post_calls l)" "numRetries l2 = numRetries l"
      "conn l2 = snd (RoundTrip E (conn l) k body)"
    by (simp_all add: l2_def post_calls_def post_fields)
  have u: "postWithRetry_loop E k body i l = postWithRetry_loop E k body (i + 1) l2"
    using postWithRetry_loop_unfold [OF le, of E k body] err ne by (simp add: l2_def Let_def)
  have a: "i + 1 \<le> numRetries l2" using le ne l2 by simp
  have a': "j = nat (numRetries l2 - (i + 1))" using Suc.prems(2) l2 by simp
  have b: "\<forall>n\<le>j. outcome E k body n (conn l2) \<noteq> None"
    using Suc.prems(3) l2 by (auto simp: outcome_Suc [symmetric])
  from Suc.IH [OF a a' b] show ?case unfolding u using l2 by (simp add: outcome_Suc)
qed

lemma outlet_batch_post:
  assumes "payloads \<noteq> []" and "Marshal E payloads = Inr body"
  shows "\<exists>l1. conn l1 = conn l \<and> numRetries l1 = numRetries l \<and> drops l1 = drops l
            \<and> outlet_batch E payloads l =
                (case fst (postWithRetry E (Auth (payloads ! 0)) body l1) of
                   Some err \<Rightarrow> (snd (postWithRetry E (Auth (payloads ! 0)) body l1))
                       \<lparr> Mchan := Mchan (snd (postWithRetry E (Auth (payloads ! 0)) body l1))
                                    @ [MMeasure ''outlet.drop'' 1] \<rparr>
                 | None \<Rightarrow> snd (postWithRetry E (Auth (payloads ! 0)) body l1))"
proof -
  define l1 where "l1 = (if verbose l
                   then l\<lparr> stdlog := stdlog l @
                          map (\<lambda>m. Printf_verbose m (payloads ! m)) [0..<length payloads] \<rparr>
                   else l)"
  have "conn l1 = conn l \<and> numRetries l1 = numRetries l \<and> drops l1 = drops l"
    by (simp add: l1_def drops_def)
  moreover have "outlet_batch E payloads l =
                (case fst (postWithRetry E (Auth (payloads ! 0)) body l1) of
                   Some err \<Rightarrow> (snd (postWithRetry E (Auth (payloads ! 0)) body l1))
                       \<lparr> Mchan := Mchan (snd (postWithRetry E (Auth (payloads ! 0)) body l1))
                                    @ [MMeasure ''outlet.drop'' 1] \<rparr>
                 | None \<Rightarrow> snd (postWithRetry E (Auth (payloads ! 0)) body l1))"
    using assms by (cases "verbose l") (simp_all add: outlet_batch_def Let_def l1_def cong: option.case_cong)
  ultimately show ?thesis by blast
qed

lemma outlet_batch_drops:
  assumes "payloads \<noteq> []" and "Marshal E payloads = Inr body" and "0 \<le> numRetries l"
  shows "(\<forall>j. int j \<le> numRetries l \<and> (\<forall>n<j. outcome E (Auth (payloads ! 0)) body n (conn l) \<noteq> None)
              \<and> outcome E (Auth (payloads ! 0)) body j (conn l) = None
            \<longrightarrow> drops (outlet_batch E payloads l) = drops l)
       \<and> ((\<forall>n\<le>nat (numRetries l). outcome E (Auth (payloads ! 0)) body n (conn l) \<noteq> None)
            \<longrightarrow> drops (outlet_batch E payloads l) = drops l + 1)"
proof -
  from outlet_batch_post [OF assms(1,2), of l] obtain l1 where
    l1: "conn l1 = conn l" "numRetries l1 = numRetries l" "drops l1 = drops l"
    and ob: "outlet_batch E payloads l =
                (case fst (postWithRetry E (Auth (payloads ! 0)) body l1) of
                   Some err \<Rightarrow> (snd (postWithRetry E (Auth (payloads ! 0)) body l1))
                       \<lparr> Mchan := Mchan (snd (postWithRetry E (Auth (payloads ! 0)) body l1))
                                    @ [MMeasure ''outlet.drop'' 1] \<rparr>
                 | None \<Rightarrow> snd (postWithRetry E (Auth (payloads ! 0)) body l1))"
    by blast
  have le: "0 \<le> numRetries l1" using assms(3) l1 by simp
  have d: "drops (snd (postWithRetry E (Auth (payloads ! 0)) body l1)) = drops l"
    using postWithRetry_loop_result [OF le, of E "Auth (payloads ! 0)" body] l1 by (simp add: postWithRetry_def)
  have s: "drops (outlet_batch E payloads l) = drops l"
    if "int j \<le> numRetries l" "\<forall>n<j. outcome E (Auth (payloads ! 0)) body n (conn l) \<noteq> None"
       "outcome E (Auth (payloads ! 0)) body j (conn l) = None" for j
  proof -
    have "fst (postWithRetry E (Auth (payloads ! 0)) body l1) = None"
      using postWithRetry_loop_success [of j l1 0 E "Auth (payloads ! 0)" body] that l1
      by (simp add: postWithRetry_def)
    then show ?thesis using ob d by simp
  qed
  have f: "drops (outlet_batch E payloads l) = drops l + 1"
    if "\<forall>n\<le>nat (numRetries l). outcome E (Auth (payloads ! 0)) body n (conn l) \<noteq> None"
  proof -
    have "fst (postWithRetry E (Auth (payloads ! 0)) body l1)
          = Some (PostFailed (the (outcome E (Auth (payloads ! 0)) body (nat (numRetries l)) (conn l))))"
      using postWithRetry_loop_exhausted [of 0 l1 "nat (numRetries l)" E "Auth (payloads ! 0)" body] that l1 le
      by (simp add: postWithRetry_def)
    then show ?thesis using ob d by (simp add: drops_def)
  qed
  show ?thesis using s f by blast
qed

lemma ex_net_after:
  "net_after ex_outlet_collaborators k body n net = net + n"
  "net_after ex_dead_network k body n net = net + n"
  by (induction n arbitrary: net)
     (simp_all add: ex_outlet_collaborators_def ex_dead_network_def)

lemma ex_outcome:
  "outcome ex_outlet_collaborators k body n net = (if net + n < 2 then Some ''503'' else None)"
  "outcome ex_dead_network k body n net = Some ''503''"
  by (simp_all add: outcome_def ex_net_after)
     (simp_all add: ex_outlet_collaborators_def ex_dead_network_def)

text \<open>
  Claim C3. With a retry count \<open>N \<ge> 0\<close>, \<open>postWithRetry\<close> calls \<open>post\<close> at most
  \<open>N + 1\<close> times. When the first \<open>j \<le> N\<close> attempts fail and the next one succeeds, it
  returns no error after exactly \<open>j + 1\<close> calls, and \<open>outlet\<close>, handling a batch that
  serialises to the body, leaves the drop counter alone. When all of the \<open>N + 1\<close> attempts
  fail, it returns the error of the last one after exactly \<open>N + 1\<close> calls, and \<open>outlet\<close>
  raises the drop counter by one.
\<close>
theorem postWithRetry_retry_budget:
  assumes "0 \<le> numRetries l"
  shows "post_calls (snd (postWithRetry E k body l)) \<le> post_calls l + nat (numRetries l) + 1
     \<and> (\<forall>j. int j \<le> numRetries l \<and> (\<forall>n<j. outcome E k body n (conn l) \<noteq> None)
             \<and> outcome E k body j (conn l) = None
           \<longrightarrow> fst (postWithRetry E k body l) = None
               \<and> post_calls (snd (postWithRetry E k body l)) = post_calls l + j + 1
               \<and> (\<forall>payloads. payloads \<noteq> [] \<and> Marshal E payloads = Inr body \<and> Auth (payloads ! 0) = k
                     \<longrightarrow> drops (outlet_batch E payloads l) = drops l))
     \<and> ((\<forall>n\<le>nat (numRetries l). outcome E k body n (conn l) \<noteq> None)
           \<longrightarrow> fst (postWithRetry E k body l)
                 = Some (PostFailed (the (outcome E k body (nat (numRetries l)) (conn l))))
               \<and> post_calls (snd (postWithRetry E k body l)) = post_calls l + nat (numRetries l) + 1
               \<and> (\<forall>payloads. payloads \<noteq> [] \<and> Marshal E payloads = Inr body \<and> Auth (payloads ! 0) = k
                     \<longrightarrow> drops (outlet_batch E payloads l) = drops l + 1))"
proof -
  have a: "post_calls (snd (postWithRetry E k body l)) \<le> post_calls l + nat (numRetries l) + 1"
    using postWithRetry_loop_result [of 0 l E k body] assms by (simp add: postWithRetry_def)
  have b: "fst (postWithRetry E k body l) = None
               \<and> post_calls (snd (postWithRetry E k body l)) = post_calls l + j + 1"
    if "int j \<le> numRetries l" "\<forall>n<j. outcome E k body n (conn l) \<noteq> None"
       "outcome E k body j (conn l) = None" for j
    using postWithRetry_loop_success [of j l 0 E k body] that by (simp add: postWithRetry_def)
  have c: "fst (postWithRetry E k body l)
                 = Some (PostFailed (the (outcome E k body (nat (numRetries l)) (conn l))))
               \<and> post_calls (snd (postWithRetry E k body l)) = post_calls l + nat (numRetries l) + 1"
    if "\<forall>n\<le>nat (numRetries l). outcome E k body n (conn l) \<noteq> None"
    using postWithRetry_loop_exhausted [of 0 l "nat (numRetries l)" E k body] that assms
    by (simp add: postWithRetry_def)
  have d: "drops (outlet_batch E payloads l) = drops l"
    if "int j \<le> numRetries l" "\<forall>n<j. outcome E k body n (conn l) \<noteq> None"
       "outcome E k body j (conn l) = None"
       "payloads \<noteq> []" "Marshal E payloads = Inr body" "Auth (payloads ! 0) = k" for j payloads
    using outlet_batch_drops [OF that(4,5) assms] that(1,2,3,6) by blast
  have e: "drops (outlet_batch E payloads l) = drops l + 1"
    if "\<forall>n\<le>nat (numRetries l). outcome E k body n (conn l) \<noteq> None"
       "payloads \<noteq> []" "Marshal E payloads = Inr body" "Auth (payloads ! 0) = k" for payloads
    using outlet_batch_drops [OF that(2,3) assms] that(1,4) by blast
  show ?thesis using a b c d e by blast
qed

theorem postWithRetry_retry_budget_witness:
  "0 \<le> numRetries ex_outlet
   \<and> outcome ex_outlet_collaborators ''key'' [8] 0 (conn ex_outlet) = Some ''503''
   \<and> outcome ex_outlet_collaborators ''key'' [8] 1 (conn ex_outlet) = Some ''503''
   \<and> outcome ex_outlet_collaborators ''key'' [8] 2 (conn ex_outlet) = None
   \<and> fst (postWithRetry ex_outlet_collaborators ''key'' [8] ex_outlet) = None
   \<and> post_calls (snd (postWithRetry ex_outlet_collaborators ''key'' [8] ex_outlet)) = 3
   \<and> drops (outlet_batch ex_outlet_collaborators [ex_record ''key''] ex_outlet) = 0
   \<and> fst (postWithRetry ex_dead_network ''key'' [8] ex_outlet) = Some (PostFailed ''503'')
   \<and> post_calls (snd (postWithRetry ex_dead_network ''key'' [8] ex_outlet)) = 3
   \<and> drops (outlet_batch ex_dead_network [ex_record ''key''] ex_outlet) = 1"
proof -
  have nn: "0 \<le> numRetries ex_outlet" and n2: "numRetries ex_outlet = 2"
    and c0: "conn ex_outlet = 0" and z: "post_calls ex_outlet = 0" "drops ex_outlet = 0"
    by (simp_all add: ex_outlet_defs post_calls_def drops_def)
  have o: "outcome ex_outlet_collaborators ''key'' [8] 0 (conn ex_outlet) = Some ''503''"
          "outcome ex_outlet_collaborators ''key'' [8] 1 (conn ex_outlet) = Some ''503''"
          "outcome ex_outlet_collaborators ''key'' [8] 2 (conn ex_outlet) = None"
    by (simp_all add: ex_outcome c0)
  have pl: "[ex_record ''key''] \<noteq> [] \<and> Marshal ex_outlet_collaborators [ex_record ''key''] = Inr [8]
            \<and> Auth ([ex_record ''key''] ! 0) = ''key''"
           "[ex_record ''key''] \<noteq> [] \<and> Marshal ex_dead_network [ex_record ''key''] = Inr [8]
            \<and> Auth ([ex_record ''key''] ! 0) = ''key''"
    by (simp_all add: ex_outlet_defs)
  have hs: "int 2 \<le> numRetries ex_outlet
            \<and> (\<forall>n<2. outcome ex_outlet_collaborators ''key'' [8] n (conn ex_outlet) \<noteq> None)
            \<and> outcome ex_outlet_collaborators ''key'' [8] 2 (conn ex_outlet) = None"
    by (simp add: n2 ex_outcome c0)
  have hf: "\<forall>n\<le>nat (numRetries ex_outlet).
              outcome ex_dead_network ''key'' [8] n (conn ex_outlet) \<noteq> None"
    by (simp add: ex_outcome)
  note S = postWithRetry_retry_budget [OF nn, of ex_outlet_collaborators "''key''" "[8]"]
  note F = postWithRetry_retry_budget [OF nn, of ex_dead_network "''key''" "[8]"]
  from S have "int 2 \<le> numRetries ex_outlet
            \<and> (\<forall>n<2. outcome ex_outlet_collaborators ''key'' [8] n (conn ex_outlet) \<noteq> None)
            \<and> outcome ex_outlet_collaborators ''key'' [8] 2 (conn ex_outlet) = None
      \<longrightarrow> fst (postWithRetry ex_outlet_collaborators ''key'' [8] ex_outlet) = None
          \<and> post_calls (snd (postWithRetry ex_outlet_collaborators ''key'' [8] ex_outlet))
              = post_calls ex_outlet + 2 + 1
          \<and> (\<forall>payloads. payloads \<noteq> [] \<and> Marshal ex_outlet_collaborators payloads = Inr [8]
                  \<and> Auth (payloads ! 0) = ''key''
                \<longrightarrow> drops (outlet_batch ex_outlet_collaborators payloads ex_outlet) = drops ex_outlet)"
    by blast
  with hs have s1: "fst (postWithRetry ex_outlet_collaborators ''key'' [8] ex_outlet) = None"
    and s2: "post_calls (snd (postWithRetry ex_outlet_collaborators ''key'' [8] ex_outlet))
              = post_calls ex_outlet + 2 + 1"
    and s3: "\<forall>payloads. payloads \<noteq> [] \<and> Marshal ex_outlet_collaborators payloads = Inr [8]
                  \<and> Auth (payloads ! 0) = ''key''
                \<longrightarrow> drops (outlet_batch ex_outlet_collaborators payloads ex_outlet) = drops ex_outlet"
    by blast+
  from s3 pl(1) have s4: "drops (outlet_batch ex_outlet_collaborators [ex_record ''key''] ex_outlet)
                          = drops ex_outlet"
    by blast
  from F hf have f1: "fst (postWithRetry ex_dead_network ''key'' [8] ex_outlet)
                 = Some (PostFailed (the (outcome ex_dead_network ''key'' [8]
                                            (nat (numRetries ex_outlet)) (conn ex_outlet))))"
    and f2: "post_calls (snd (postWithRetry ex_dead_network ''key'' [8] ex_outlet))
               = post_calls ex_outlet + nat (numRetries ex_outlet) + 1"
    and f3: "\<forall>payloads. payloads \<noteq> [] \<and> Marshal ex_dead_network payloads = Inr [8]
                  \<and> Auth (payloads ! 0) = ''key''
                \<longrightarrow> drops (outlet_batch ex_dead_network payloads ex_outlet) = drops ex_outlet + 1"
    by blast+
  from f3 pl(2) have f4: "drops (outlet_batch ex_dead_network [ex_record ''key''] ex_outlet)
                          = drops ex_outlet + 1"
    by blast
  show ?thesis
    using nn o s1 s2 s4 f1 f2 f4 by (simp add: z n2 ex_outcome)
qed

text \<open>
  Claim C10. With a retry count \<open>N \<ge> 0\<close>, \<open>postWithRetry\<close> makes at least one call of
  \<open>post\<close> and returns what its last call returned (no error, or that call's error): it
  never returns the error made after the loop. With \<open>N < 0\<close> it makes no call, changes
  nothing and returns that error.
\<close>
theorem postWithRetry_fallthrough:
  "(0 \<le> numRetries l \<longrightarrow>
      post_calls l < post_calls (snd (postWithRetry E k body l))
      \<and> fst (postWithRetry E k body l) =
          map_option PostFailed
            (outcome E k body (post_calls (snd (postWithRetry E k body l)) - post_calls l - 1) (conn l))
      \<and> fst (postWithRetry E k body l) \<noteq> Some UnableToPost)
   \<and> (numRetries l < 0 \<longrightarrow> postWithRetry E k body l = (Some UnableToPost, l))"
proof -
  have "fst (postWithRetry E k body l) \<noteq> Some UnableToPost"
    if "fst (postWithRetry E k body l) =
          map_option PostFailed
            (outcome E k body (post_calls (snd (postWithRetry E k body l)) - post_calls l - 1) (conn l))"
    using that by (metis (no_types) map_option_eq_Some post_error.distinct(1))
  then show ?thesis
    using postWithRetry_loop_result [of 0 l E k body] postWithRetry_loop_negative [of l 0 E k body]
    by (simp add: postWithRetry_def)
qed


theorem postWithRetry_fallthrough_witness:
  "0 \<le> numRetries ex_outlet
   \<and> post_calls ex_outlet < post_calls (snd (postWithRetry ex_dead_network ''key'' [8] ex_outlet))
   \<and> fst (postWithRetry ex_dead_network ''key'' [8] ex_outlet) \<noteq> Some UnableToPost
   \<and> numRetries (ex_outlet\<lparr> numRetries := - 1 \<rparr>) < 0
   \<and> postWithRetry ex_dead_network ''key'' [8] (ex_outlet\<lparr> numRetries := - 1 \<rparr>)
       = (Some UnableToPost, ex_outlet\<lparr> numRetries := - 1 \<rparr>)"
proof -
  have a: "0 \<le> numRetries ex_outlet" by (simp add: ex_outlet_defs)
  have b: "numRetries (ex_outlet\<lparr> numRetries := - 1 \<rparr>) < 0" by simp
  from postWithRetry_fallthrough [of ex_outlet ex_dead_network "''key''" "[8]"]
       postWithRetry_fallthrough [of "ex_outlet\<lparr> numRetries := - 1 \<rparr>" ex_dead_network "''key''" "[8]"]
  show ?thesis using a b by blast
qed

subsection \<open>The batch stage\<close>

lemma payload_first:
  "m (Auth p) = None \<Longrightarrow>
   groupByUser_payload E p (m, l) =
     (m(Auth p \<mapsto> \<lparr> elems = [p], cap = 300 \<rparr>), l\<lparr> stdlog := stdlog l @ [Printf_payload p] \<rparr>)"
  by (simp add: groupByUser_payload_def Let_def len_def)

lemma payload_fills:
  "m (Auth p) = Some g \<Longrightarrow> Suc (len g) = cap g \<Longrightarrow>
   groupByUser_payload E p (m, l) =
     (m(Auth p := None),
      l\<lparr> stdlog := stdlog l @ [Printf_payload p], outbox := outbox l @ [elems g @ [p]] \<rparr>)"
  by (simp add: groupByUser_payload_def Let_def len_def append_slice_def)

lemma payload_grows:
  "m (Auth p) = Some g \<Longrightarrow> Suc (len g) < cap g \<Longrightarrow>
   groupByUser_payload E p (m, l) =
     (m(Auth p \<mapsto> \<lparr> elems = elems g @ [p], cap = cap g \<rparr>),
      l\<lparr> stdlog := stdlog l @ [Printf_payload p] \<rparr>)"
  by (simp add: groupByUser_payload_def Let_def len_def append_slice_def)

lemma groupByUser_tick_eq:
  "distinct ks \<Longrightarrow> set ks \<subseteq> dom m \<Longrightarrow>
   groupByUser_tick ks (m, l) =
     ((\<lambda>k. if k \<in> set ks then None else m k),
      l\<lparr> outbox := outbox l @ map elems (filter (\<lambda>v. 0 < len v) (map (\<lambda>k. the (m k)) ks)) \<rparr>)"
proof (induction ks arbitrary: m l)
  case Nil
  then show ?case by simp
next
  case (Cons k ks)
  from Cons.prems obtain v where v: "m k = Some v" by auto
  define m1 where "m1 = m(k := None)"
  define l1 where "l1 = (if len v > 0 then l\<lparr> outbox := outbox l @ [elems v] \<rparr> else l)"
  have d: "distinct ks" and nk: "k \<notin> set ks" using Cons.prems by auto
  have sub: "set ks \<subseteq> dom m1" using Cons.prems nk by (auto simp: m1_def)
  have mp: "map (\<lambda>j. the (m1 j)) ks = map (\<lambda>j. the (m j)) ks"
    using nk by (auto simp: m1_def intro: map_cong)
  have rg: "(\<lambda>j. if j \<in> set ks then None else m1 j)
            = (\<lambda>j. if j \<in> set (k # ks) then None else m j)"
    by (auto simp: fun_eq_iff m1_def)
  have "groupByUser_tick (k # ks) (m, l) = groupByUser_tick ks (m1, l1)"
    using v by (simp add: m1_def l1_def)
  also have "\<dots> = ((\<lambda>j. if j \<in> set ks then None else m1 j),
      l1\<lparr> outbox := outbox l1 @ map elems (filter (\<lambda>v. 0 < len v) (map (\<lambda>j. the (m1 j)) ks)) \<rparr>)"
    by (rule Cons.IH [OF d sub])
  also have "\<dots> = ((\<lambda>j. if j \<in> set (k # ks) then None else m j),
      l\<lparr> outbox := outbox l @ map elems (filter (\<lambda>v. 0 < len v) (map (\<lambda>j. the (m j)) (k # ks))) \<rparr>)"
    unfolding mp rg using v by (simp add: l1_def)
  finally show ?case .
qed

lemma groupByUser_loop_append:
  "groupByUser_loop E (es @ fs) ml = groupByUser_loop E fs (groupByUser_loop E es ml)"
  by (induction es arbitrary: ml) simp_all

lemma feed_existing:
  "m usr = Some g \<Longrightarrow> len g + length ps < cap g \<Longrightarrow> \<forall>p\<in>set ps. Auth p = usr \<Longrightarrow>
   groupByUser_loop E (map Payload ps) (m, l) =
     (m(usr \<mapsto> \<lparr> elems = elems g @ ps, cap = cap g \<rparr>),
      l\<lparr> stdlog := stdlog l @ map Printf_payload ps \<rparr>)"
proof (induction ps arbitrary: m g l)
  case Nil
  have "m(usr \<mapsto> \<lparr> elems = elems g, cap = cap g \<rparr>) = m"
    using Nil.prems(1) by (auto simp: fun_eq_iff)
  then show ?case by simp
next
  case (Cons p ps)
  have au: "Auth p = usr" using Cons.prems(3) by simp
  define g1 where "g1 = \<lparr> elems = elems g @ [p], cap = cap g \<rparr>"
  define m1 where "m1 = m(usr \<mapsto> g1)"
  define l1 where "l1 = l\<lparr> stdlog := stdlog l @ [Printf_payload p] \<rparr>"
  have s: "groupByUser_payload E p (m, l) = (m1, l1)"
    using payload_grows [of m p g E l] Cons.prems(1,2) au
    by (simp add: m1_def g1_def l1_def len_def)
  have a: "m1 usr = Some g1" by (simp add: m1_def)
  have b: "len g1 + length ps < cap g1" using Cons.prems(2) by (simp add: g1_def len_def)
  have c: "\<forall>p\<in>set ps. Auth p = usr" using Cons.prems(3) by simp
  have "groupByUser_loop E (map Payload (p # ps)) (m, l) = groupByUser_loop E (map Payload ps) (m1, l1)"
    using s by simp
  also have "\<dots> = (m1(usr \<mapsto> \<lparr> elems = elems g1 @ ps, cap = cap g1 \<rparr>),
      l1\<lparr> stdlog := stdlog l1 @ map Printf_payload ps \<rparr>)"
    by (rule Cons.IH [of m1 g1 l1, OF a b c])
  also have "\<dots> = (m(usr \<mapsto> \<lparr> elems = elems g @ p # ps, cap = cap g \<rparr>),
      l\<lparr> stdlog := stdlog l @ map Printf_payload (p # ps) \<rparr>)"
    by (simp add: m1_def g1_def l1_def)
  finally show ?case .
qed

lemma feed_cap:
  assumes "length ps = 300" and "\<forall>p\<in>set ps. Auth p = usr" and "m usr = None"
  shows "groupByUser_loop E (map Payload ps) (m, l) =
     (m, l\<lparr> stdlog := stdlog l @ map Printf_payload ps, outbox := outbox l @ [ps] \<rparr>)"
proof -
  from assms(1) obtain p rs where ps: "ps = p # rs" by (cases ps) auto
  then have "length rs = 299" using assms(1) by simp
  then obtain qs q where rs: "rs = qs @ [q]" by (cases rs rule: rev_cases) auto
  have lq: "length qs = 298" using \<open>length rs = 299\<close> rs by simp
  have au: "Auth p = usr" "Auth q = usr" "\<forall>p\<in>set qs. Auth p = usr"
    using assms(2) ps rs by simp_all
  define g0 :: "DataDog slice" where "g0 = \<lparr> elems = [p], cap = 300 \<rparr>"
  define m0 where "m0 = m(usr \<mapsto> g0)"
  define l0 where "l0 = l\<lparr> stdlog := stdlog l @ [Printf_payload p] \<rparr>"
  define g1 :: "DataDog slice" where "g1 = \<lparr> elems = elems g0 @ qs, cap = cap g0 \<rparr>"
  define m1 where "m1 = m0(usr \<mapsto> g1)"
  define l1 where "l1 = l0\<lparr> stdlog := stdlog l0 @ map Printf_payload qs \<rparr>"
  have s0: "groupByUser_payload E p (m, l) = (m0, l0)"
    using payload_first [of m p E l] assms(3) au(1) by (simp add: m0_def g0_def l0_def)
  have s1: "groupByUser_loop E (map Payload qs) (m0, l0) = (m1, l1)"
    unfolding m1_def g1_def l1_def
    by (rule feed_existing [of m0 usr g0 qs E l0])
       (use lq au(3) in \<open>simp_all add: m0_def g0_def len_def\<close>)
  have f: "m1 (Auth q) = Some g1" "Suc (len g1) = cap g1"
    using au(2) lq by (simp_all add: m1_def g1_def g0_def len_def)
  from payload_fills [of m1 q g1 E l1, OF f]
  have s2: "groupByUser_payload E q (m1, l1) =
     (m1(Auth q := None),
      l1\<lparr> stdlog := stdlog l1 @ [Printf_payload q], outbox := outbox l1 @ [elems g1 @ [q]] \<rparr>)" .
  have restore: "m1(Auth q := None) = m"
    using assms(3) au(2) by (auto simp: fun_eq_iff m1_def m0_def)
  have "groupByUser_loop E (map Payload ps) (m, l)
        = groupByUser_payload E q (groupByUser_loop E (map Payload qs) (groupByUser_payload E p (m, l)))"
    by (simp add: ps rs groupByUser_loop_append)
  also have "\<dots> = (m, l1\<lparr> stdlog := stdlog l1 @ [Printf_payload q],
                            outbox := outbox l1 @ [elems g1 @ [q]] \<rparr>)"
    by (simp only: s0 s1 s2 restore)
  also have "\<dots> = (m, l\<lparr> stdlog := stdlog l @ map Printf_payload ps, outbox := outbox l @ [ps] \<rparr>)"
    by (simp add: l1_def l0_def g1_def g0_def ps rs)
  finally show ?thesis .
qed

text \<open>
  Claim C6. The first record of a credential makes its group, of length 1 and capacity
  300, and nothing is sent. The record that brings a group to its capacity is sent with the
  whole group to the outbox at once, and the group leaves the map; so 300 records of one
  credential that has no group go out as one batch, without a tick. A tick sends every
  non-empty group and empties the map; so a lone record is sent by the next tick.
\<close>
theorem batch_flush_triggers:
  "(m (Auth p) = None \<longrightarrow>
      groupByUser_payload E p (m, l) =
        (m(Auth p \<mapsto> \<lparr> elems = [p], cap = 300 \<rparr>),
         l\<lparr> stdlog := stdlog l @ [Printf_payload p] \<rparr>))
   \<and> (m (Auth p) = Some g \<and> Suc (len g) = cap g \<longrightarrow>
      groupByUser_payload E p (m, l) =
        (m(Auth p := None),
         l\<lparr> stdlog := stdlog l @ [Printf_payload p], outbox := outbox l @ [elems g @ [p]] \<rparr>))
   \<and> (length ps = 300 \<and> (\<forall>q\<in>set ps. Auth q = usr) \<and> m usr = None \<longrightarrow>
      groupByUser_loop E (map Payload ps) (m, l) =
        (m, l\<lparr> stdlog := stdlog l @ map Printf_payload ps, outbox := outbox l @ [ps] \<rparr>))
   \<and> (distinct ks \<and> set ks = dom m \<longrightarrow>
      groupByUser_tick ks (m, l) =
        (Map.empty,
         l\<lparr> outbox := outbox l @ map elems (filter (\<lambda>v. 0 < len v) (map (\<lambda>k. the (m k)) ks)) \<rparr>))
   \<and> groupByUser E [Payload p, Tick [Auth p]] l =
        (Map.empty, l\<lparr> stdlog := stdlog l @ [Printf_payload p], outbox := outbox l @ [[p]] \<rparr>)"
proof (intro conjI impI)
  assume "m (Auth p) = None"
  then show "groupByUser_payload E p (m, l) =
        (m(Auth p \<mapsto> \<lparr> elems = [p], cap = 300 \<rparr>),
         l\<lparr> stdlog := stdlog l @ [Printf_payload p] \<rparr>)"
    by (rule payload_first)
next
  assume "m (Auth p) = Some g \<and> Suc (len g) = cap g"
  then show "groupByUser_payload E p (m, l) =
        (m(Auth p := None),
         l\<lparr> stdlog := stdlog l @ [Printf_payload p], outbox := outbox l @ [elems g @ [p]] \<rparr>)"
    using payload_fills [of m p g E l] by simp
next
  assume "length ps = 300 \<and> (\<forall>q\<in>set ps. Auth q = usr) \<and> m usr = None"
  then show "groupByUser_loop E (map Payload ps) (m, l) =
        (m, l\<lparr> stdlog := stdlog l @ map Printf_payload ps, outbox := outbox l @ [ps] \<rparr>)"
    using feed_cap [of ps usr m E l] by simp
next
  assume a: "distinct ks \<and> set ks = dom m"
  then have "(\<lambda>k. if k \<in> set ks then None else m k) = Map.empty"
    by (auto simp: fun_eq_iff)
  then show "groupByUser_tick ks (m, l) =
        (Map.empty,
         l\<lparr> outbox := outbox l @ map elems (filter (\<lambda>v. 0 < len v) (map (\<lambda>k. the (m k)) ks)) \<rparr>)"
    using groupByUser_tick_eq [of ks m l] a by simp
next
  show "groupByUser E [Payload p, Tick [Auth p]] l =
        (Map.empty, l\<lparr> stdlog := stdlog l @ [Printf_payload p], outbox := outbox l @ [[p]] \<rparr>)"
    by (simp add: groupByUser_def payload_first len_def)
qed


theorem batch_flush_triggers_witness:
  "groupByUser_payload ex_outlet_collaborators (ex_record ''key'') (Map.empty, ex_outlet)
     = ([''key'' \<mapsto> \<lparr> elems = [ex_record ''key''], cap = 300 \<rparr>],
        ex_outlet\<lparr> stdlog := [Printf_payload (ex_record ''key'')] \<rparr>)
   \<and> groupByUser_payload ex_outlet_collaborators (ex_record ''key'')
        ([''key'' \<mapsto> \<lparr> elems = replicate 299 (ex_record ''key''), cap = 300 \<rparr>], ex_outlet)
     = (Map.empty,
        ex_outlet\<lparr> stdlog := [Printf_payload (ex_record ''key'')],
                   outbox := [replicate 300 (ex_record ''key'')] \<rparr>)
   \<and> groupByUser_loop ex_outlet_collaborators (map Payload (replicate 300 (ex_record ''key'')))
        (Map.empty, ex_outlet)
     = (Map.empty,
        ex_outlet\<lparr> stdlog := replicate 300 (Printf_payload (ex_record ''key'')),
                   outbox := [replicate 300 (ex_record ''key'')] \<rparr>)
   \<and> groupByUser_tick [''key'']
        ([''key'' \<mapsto> \<lparr> elems = [ex_record ''key''], cap = 300 \<rparr>], ex_outlet)
     = (Map.empty, ex_outlet\<lparr> outbox := [[ex_record ''key'']] \<rparr>)"
proof -
  let ?p = "ex_record ''key''"
  let ?E = ex_outlet_collaborators
  have au: "Auth ?p = ''key''" by (simp add: ex_record_def)
  have e: "stdlog ex_outlet = []" "outbox ex_outlet = []" by (simp_all add: ex_outlet_defs)
  have h1: "Map.empty (Auth ?p) = (None :: DataDog slice option)" by simp
  let ?m2 = "[''key'' \<mapsto> \<lparr> elems = replicate 299 ?p, cap = 300 \<rparr>]"
  have h2: "?m2 (Auth ?p) = Some \<lparr> elems = replicate 299 ?p, cap = 300 \<rparr>
            \<and> Suc (len \<lparr> elems = replicate 299 ?p, cap = 300 \<rparr>)
                = cap \<lparr> elems = replicate 299 ?p, cap = (300::nat) \<rparr>"
    by (simp add: au len_def)
  have h3: "length (replicate 300 ?p) = 300 \<and> (\<forall>q\<in>set (replicate 300 ?p). Auth q = ''key'')
            \<and> Map.empty ''key'' = (None :: DataDog slice option)"
    by (simp add: au)
  let ?m4 = "[''key'' \<mapsto> \<lparr> elems = [?p], cap = 300 \<rparr>]"
  have h4: "distinct [''key''] \<and> set [''key''] = dom ?m4" by simp
  have r1: "groupByUser_payload ?E ?p (Map.empty, ex_outlet)
     = (Map.empty(Auth ?p \<mapsto> \<lparr> elems = [?p], cap = 300 \<rparr>),
        ex_outlet\<lparr> stdlog := stdlog ex_outlet @ [Printf_payload ?p] \<rparr>)"
    using batch_flush_triggers [of Map.empty ?p ?E ex_outlet] h1 by blast
  have r2: "groupByUser_payload ?E ?p (?m2, ex_outlet)
     = (?m2(Auth ?p := None),
        ex_outlet\<lparr> stdlog := stdlog ex_outlet @ [Printf_payload ?p],
                   outbox := outbox ex_outlet
                       @ [elems \<lparr> elems = replicate 299 ?p, cap = 300 \<rparr> @ [?p]] \<rparr>)"
    using batch_flush_triggers [of ?m2 ?p ?E ex_outlet
                                   "\<lparr> elems = replicate 299 ?p, cap = 300 \<rparr>"] h2 by blast
  have r3: "groupByUser_loop ?E (map Payload (replicate 300 ?p)) (Map.empty, ex_outlet)
     = (Map.empty, ex_outlet\<lparr> stdlog := stdlog ex_outlet @ map Printf_payload (replicate 300 ?p),
                              outbox := outbox ex_outlet @ [replicate 300 ?p] \<rparr>)"
    using batch_flush_triggers [of Map.empty ?p ?E ex_outlet _ "replicate 300 ?p" "''key''"] h3
    by blast
  have r4: "groupByUser_tick [''key''] (?m4, ex_outlet)
     = (Map.empty,
        ex_outlet\<lparr> outbox := outbox ex_outlet
            @ map elems (filter (\<lambda>v. 0 < len v) (map (\<lambda>k. the (?m4 k)) [''key''])) \<rparr>)"
    using batch_flush_triggers [of ?m4 ?p ?E ex_outlet _ _ _ "[''key'']"] h4 by blast
  have "Suc 299 = (300::nat)" by simp
  then have "replicate 300 ?p = ?p # replicate 299 ?p"
    using replicate_Suc [of 299 ?p] by (simp only:)
  then have rep: "replicate 299 ?p @ [?p] = replicate 300 ?p"
    using replicate_append_same [of 299 ?p] by (simp only:)
  show ?thesis
    unfolding r1 r2 r3 r4 by (simp add: e au len_def rep)
qed

subsection \<open>What the batch stage sends\<close>

lemma group_invD:
  assumes "group_inv m" and "m k = Some g"
  shows "0 < len g" and "len g < 300" and "cap g = 300" and "\<forall>p\<in>set (elems g). Auth p = k"
proof -
  from assms have "0 < len g \<and> len g < cap g \<and> cap g = 300 \<and> (\<forall>p\<in>set (elems g). Auth p = k)"
    unfolding group_inv_def by blast
  then show "0 < len g" and "len g < 300" and "cap g = 300" and "\<forall>p\<in>set (elems g). Auth p = k"
    by simp_all
qed

lemma group_inv_upd:
  "group_inv m \<Longrightarrow> 0 < len g \<Longrightarrow> len g < cap g \<Longrightarrow> cap g = 300 \<Longrightarrow>
   \<forall>p\<in>set (elems g). Auth p = k \<Longrightarrow> group_inv (m(k \<mapsto> g))"
  unfolding group_inv_def
proof (intro allI impI)
  fix k' g'
  assume a: "\<forall>k g. m k = Some g \<longrightarrow>
        0 < len g \<and> len g < cap g \<and> cap g = 300 \<and> (\<forall>p\<in>set (elems g). Auth p = k)"
    and g: "0 < len g" "len g < cap g" "cap g = 300" "\<forall>p\<in>set (elems g). Auth p = k"
    and u: "(m(k \<mapsto> g)) k' = Some g'"
  show "0 < len g' \<and> len g' < cap g' \<and> cap g' = 300 \<and> (\<forall>p\<in>set (elems g'). Auth p = k')"
  proof (cases "k' = k")
    case True
    then have "g' = g" using u by simp
    then show ?thesis using g True by simp
  next
    case False
    then have "m k' = Some g'" using u by simp
    then show ?thesis using a by blast
  qed
qed

lemma group_inv_del: "group_inv m \<Longrightarrow> group_inv (m(k := None))"
  unfolding group_inv_def
proof (intro allI impI)
  fix k' g'
  assume a: "\<forall>k g. m k = Some g \<longrightarrow>
        0 < len g \<and> len g < cap g \<and> cap g = 300 \<and> (\<forall>p\<in>set (elems g). Auth p = k)"
    and u: "(m(k := None)) k' = Some g'"
  have "m k' = Some g'" using u by (cases "k' = k") simp_all
  then show "0 < len g' \<and> len g' < cap g' \<and> cap g' = 300 \<and> (\<forall>p\<in>set (elems g'). Auth p = k')"
    using a by blast
qed

lemma emits_same: "outbox l' = outbox l \<Longrightarrow> emits l l'"
  unfolding emits_def by (rule exI [of _ "[]"]) simp

lemma emits_one: "good_batch b \<Longrightarrow> outbox l' = outbox l @ [b] \<Longrightarrow> emits l l'"
  unfolding emits_def by (rule exI [of _ "[b]"]) simp

lemma emits_trans:
  assumes "emits l l'" and "emits l' l''"
  shows "emits l l''"
proof -
  from assms(1) obtain bs where bs: "outbox l' = outbox l @ bs" "\<forall>b\<in>set bs. good_batch b"
    unfolding emits_def by (elim exE conjE)
  from assms(2) obtain cs where cs: "outbox l'' = outbox l' @ cs" "\<forall>b\<in>set cs. good_batch b"
    unfolding emits_def by (elim exE conjE)
  have "outbox l'' = outbox l @ (bs @ cs)" using bs(1) cs(1) by simp
  moreover have "\<forall>b\<in>set (bs @ cs). good_batch b" using bs(2) cs(2) by auto
  ultimately show ?thesis unfolding emits_def by (intro exI conjI)
qed

lemma group_good:
  assumes "group_inv m" and "m k = Some v"
  shows "good_batch (elems v)"
proof -
  note v = group_invD [OF assms]
  have ne: "elems v \<noteq> []" using v(1) by (simp add: len_def)
  then have mem: "elems v ! 0 \<in> set (elems v)" by simp
  from v(4) mem have "Auth (elems v ! 0) = k" by (rule bspec)
  then have a: "\<forall>p\<in>set (elems v). Auth p = Auth (elems v ! 0)" using v(4) by simp
  have b: "length (elems v) \<le> 300" using v(2) by (simp add: len_def)
  show ?thesis unfolding good_batch_def using ne b a by (intro conjI)
qed

lemma groupByUser_tick_inv:
  "group_inv m \<Longrightarrow>
   group_inv (fst (groupByUser_tick ks (m, l))) \<and> emits l (snd (groupByUser_tick ks (m, l)))"
proof (induction ks arbitrary: m l)
  case Nil
  then show ?case by (simp add: emits_same)
next
  case (Cons k ks)
  show ?case
  proof (cases "m k")
    case None
    then show ?thesis using Cons.IH [OF Cons.prems, of l] by simp
  next
    case (Some v)
    define m1 where "m1 = m(k := None)"
    define l1 where "l1 = (if len v > 0 then l\<lparr> outbox := outbox l @ [elems v] \<rparr> else l)"
    have g1: "group_inv m1" using Cons.prems by (simp add: m1_def group_inv_del)
    have u: "groupByUser_tick (k # ks) (m, l) = groupByUser_tick ks (m1, l1)"
      using Some by (simp add: m1_def l1_def)
    have "0 < len v" using group_invD(1) [OF Cons.prems Some] .
    then have "outbox l1 = outbox l @ [elems v]" by (simp add: l1_def)
    with group_good [OF Cons.prems Some] have e1: "emits l l1" by (rule emits_one)
    note ih = Cons.IH [OF g1, of l1]
    from ih have e2: "emits l1 (snd (groupByUser_tick ks (m1, l1)))" by (rule conjunct2)
    from ih have gi: "group_inv (fst (groupByUser_tick ks (m1, l1)))" by (rule conjunct1)
    show ?thesis unfolding u using gi emits_trans [OF e1 e2] by (rule conjI)
  qed
qed

lemma groupByUser_payload_inv:
  assumes "group_inv m"
  shows "group_inv (fst (groupByUser_payload E p (m, l)))
         \<and> emits l (snd (groupByUser_payload E p (m, l)))"
proof (cases "m (Auth p)")
  case None
  have "group_inv (m(Auth p \<mapsto> \<lparr> elems = [p], cap = 300 \<rparr>))"
    by (rule group_inv_upd [OF assms]) (simp_all add: len_def)
  then show ?thesis unfolding payload_first [of m p E l, OF None] by (simp add: emits_same)
next
  case (Some g)
  note g0 = group_invD [OF assms Some]
  have g: "0 < len g" "len g < cap g" "cap g = 300" "\<forall>q\<in>set (elems g). Auth q = Auth p"
    using g0 by simp_all
  show ?thesis
  proof (cases "Suc (len g) = cap g")
    case True
    have gi: "group_inv (m(Auth p := None))" using assms by (rule group_inv_del)
    have "(elems g @ [p]) ! 0 = elems g ! 0" using g(1) by (simp add: len_def nth_append)
    moreover have "elems g ! 0 \<in> set (elems g)" using g(1) by (simp add: len_def)
    ultimately have "Auth ((elems g @ [p]) ! 0) = Auth p" using g(4) by simp
    then have a: "\<forall>q\<in>set (elems g @ [p]). Auth q = Auth ((elems g @ [p]) ! 0)"
      using g(4) by simp
    have b: "length (elems g @ [p]) \<le> 300" using g(2,3) by (simp add: len_def)
    have "good_batch (elems g @ [p])" unfolding good_batch_def using b a by (intro conjI) simp_all
    then have "emits l (l\<lparr> stdlog := stdlog l @ [Printf_payload p],
                            outbox := outbox l @ [elems g @ [p]] \<rparr>)"
      by (rule emits_one) simp
    then show ?thesis unfolding payload_fills [of m p g E l, OF Some True] using gi by simp
  next
    case False
    then have lt: "Suc (len g) < cap g" using g(2) by simp
    have "group_inv (m(Auth p \<mapsto> \<lparr> elems = elems g @ [p], cap = cap g \<rparr>))"
      by (rule group_inv_upd [OF assms]) (use g lt in \<open>simp_all add: len_def\<close>)
    then show ?thesis unfolding payload_grows [of m p g E l, OF Some lt] by (simp add: emits_same)
  qed
qed

lemma groupByUser_step_inv:
  assumes "group_inv (fst ml)"
  shows "group_inv (fst (groupByUser_step E e ml)) \<and> emits (snd ml) (snd (groupByUser_step E e ml))"
proof (cases ml)
  case (Pair m l)
  then have gi: "group_inv m" using assms by simp
  show ?thesis
  proof (cases e)
    case (Tick ks)
    then show ?thesis using groupByUser_tick_inv [OF gi, of ks l] Pair by simp
  next
    case (Payload p)
    then show ?thesis using groupByUser_payload_inv [OF gi, of E p l] Pair by simp
  qed
qed

lemma groupByUser_loop_inv:
  "group_inv (fst ml) \<Longrightarrow>
   group_inv (fst (groupByUser_loop E evs ml)) \<and> emits (snd ml) (snd (groupByUser_loop E evs ml))"
proof (induction evs arbitrary: ml)
  case Nil
  then show ?case by (simp add: emits_same)
next
  case (Cons e es)
  note s = groupByUser_step_inv [OF Cons.prems, of E e]
  note i = Cons.IH [OF conjunct1 [OF s]]
  have "emits (snd ml) (snd (groupByUser_loop E es (groupByUser_step E e ml)))"
    using emits_trans [OF conjunct2 [OF s] conjunct2 [OF i]] .
  then show ?case using conjunct1 [OF i] by simp
qed

text \<open>
  Claim C7. Whatever events \<open>groupByUser\<close> serves, all it does to the outbox is to add
  batches at its end, and each batch it adds is non-empty, holds at most 300 records, and
  holds records of one credential, that of its first record.
\<close>
theorem emitted_batches_wellformed:
  "\<exists>bs. outbox (snd (groupByUser E evs l)) = outbox l @ bs
      \<and> (\<forall>b\<in>set bs. b \<noteq> [] \<and> length b \<le> 300 \<and> (\<forall>p\<in>set b. Auth p = Auth (b ! 0)))"
proof -
  have "group_inv (fst (Map.empty, l))" by (simp add: group_inv_def)
  from groupByUser_loop_inv [OF this, of E evs] have "emits l (snd (groupByUser E evs l))"
    by (simp add: groupByUser_def)
  then show ?thesis unfolding emits_def good_batch_def .
qed

theorem emitted_batches_wellformed_witness:
  "outbox (snd (groupByUser ex_outlet_collaborators
      [Payload (ex_record ''a''), Payload (ex_record ''b''), Payload (ex_record ''a''),
       Tick [''b'', ''a'']] ex_outlet))
     = [[ex_record ''b''], [ex_record ''a'', ex_record ''a'']]
   \<and> (\<exists>bs. [[ex_record ''b''], [ex_record ''a'', ex_record ''a'']] = outbox ex_outlet @ bs
          \<and> (\<forall>b\<in>set bs. b \<noteq> [] \<and> length b \<le> 300 \<and> (\<forall>p\<in>set b. Auth p = Auth (b ! 0))))"
proof -
  have ev: "outbox (snd (groupByUser ex_outlet_collaborators
      [Payload (ex_record ''a''), Payload (ex_record ''b''), Payload (ex_record ''a''),
       Tick [''b'', ''a'']] ex_outlet))
     = [[ex_record ''b''], [ex_record ''a'', ex_record ''a'']]"
    by (simp add: groupByUser_def groupByUser_payload_def Let_def len_def append_slice_def
                  ex_outlet_defs)
  from emitted_batches_wellformed [of ex_outlet_collaborators
      "[Payload (ex_record ''a''), Payload (ex_record ''b''), Payload (ex_record ''a''),
       Tick [''b'', ''a'']]" ex_outlet]
  show ?thesis unfolding ev using ev by simp
qed

subsection \<open>Empty batches\<close>

text \<open>
  Claim C9 as stated fails in one part: an outlet configured quiet does not log the empty
  batch. It takes it from the outbox and does nothing else.
\<close>
theorem empty_batch_not_logged_counterexample:
  "quiet (ex_outlet\<lparr> quiet := True, outbox := [[]] \<rparr>)
   \<and> DataDogOutlet_outlet ex_outlet_collaborators (ex_outlet\<lparr> quiet := True, outbox := [[]] \<rparr>)
       = ex_outlet\<lparr> quiet := True, outbox := [] \<rparr>
   \<and> stdlog (DataDogOutlet_outlet ex_outlet_collaborators
               (ex_outlet\<lparr> quiet := True, outbox := [[]] \<rparr>)) = []"
  by (simp add: DataDogOutlet_outlet_def outlet_batch_def ex_outlet_defs)

text \<open>
  Claim C9, amended. When the batch at the head of the outbox is empty, one iteration of
  \<open>outlet\<close> takes it off and, unless the outlet is quiet, logs it. Nothing else changes:
  the connection and the metrics channel are as before, and the result is the same for
  every serialiser and every network, so neither was used. The worker's later iterations
  go on from that state with the batches that follow.
\<close>
theorem empty_batch_skipped:
  "outbox l = [] # rest \<longrightarrow>
     DataDogOutlet_outlet E l =
       l\<lparr> outbox := rest,
          stdlog := (if quiet l then stdlog l else stdlog l @ [Printf_empty_metrics_error]) \<rparr>
   \<and> outlet_iterations E (Suc n) l =
       outlet_iterations E n
         (l\<lparr> outbox := rest,
            stdlog := (if quiet l then stdlog l else stdlog l @ [Printf_empty_metrics_error]) \<rparr>)"
  by (simp add: DataDogOutlet_outlet_def outlet_batch_def)


theorem empty_batch_skipped_witness:
  "outbox (ex_outlet\<lparr> outbox := [[], [ex_record ''key'']] \<rparr>) = [] # [[ex_record ''key'']]
   \<and> DataDogOutlet_outlet ex_dead_network (ex_outlet\<lparr> outbox := [[], [ex_record ''key'']] \<rparr>)
       = ex_outlet\<lparr> outbox := [[ex_record ''key'']], stdlog := [Printf_empty_metrics_error] \<rparr>"
proof -
  have a: "outbox (ex_outlet\<lparr> outbox := [[], [ex_record ''key'']] \<rparr>) = [] # [[ex_record ''key'']]"
    by simp
  have q: "\<not> quiet ex_outlet" "stdlog ex_outlet = []" by (simp_all add: ex_outlet_defs)
  from empty_batch_skipped [of "ex_outlet\<lparr> outbox := [[], [ex_record ''key'']] \<rparr>"
                               "[[ex_record ''key'']]" ex_dead_network 0]
  show ?thesis using a q by simp
qed

end
